theory Spec2Isabelle
  imports Main "HOL-Library.Word"
begin

unbundle bit_operations_syntax

section \<open>Machine types\<close>

type_synonym u8 = "8 word"
type_synonym u16 = "16 word"
type_synonym u32 = "32 word"
type_synonym u64 = "64 word"

section \<open>AddressCodec: the wire permutation of the flash address bus\<close>

text \<open>
  \<^verbatim>\<open>static uint32_t addr_perm(uint32_t addr)\<close> of \<^verbatim>\<open>main.c\<close>: a mask and eight
  single-bit moves, joined by bitwise or. Left shifts are \<open>push_bit\<close>, right shifts
  of the unsigned value are \<open>drop_bit\<close>.
\<close>

definition addr_perm :: "u32 \<Rightarrow> u32" where
  "addr_perm addr =
     (addr AND 0xFFFFFE02) OR
     push_bit 7 (addr AND 0x001) OR
     push_bit 4 (addr AND 0x004) OR
     push_bit 2 (addr AND 0x008) OR
     drop_bit 4 (addr AND 0x010) OR
     drop_bit 3 (addr AND 0x020) OR
     push_bit 2 (addr AND 0x040) OR
     drop_bit 3 (addr AND 0x080) OR
     drop_bit 5 (addr AND 0x100)"


section \<open>The console's cartridge bus\<close>

text \<open>
  The flash routines of \<^verbatim>\<open>main.c\<close> act on two pieces of hardware state: the memory
  control register \<^verbatim>\<open>REG_EXMEMCNT\<close>, whose bit 7 says which processor owns the
  cartridge bus, and the cartridge itself, reached through the 16-bit window
  \<^verbatim>\<open>SLOT2_BASE_U16\<close> at \<^verbatim>\<open>0x08000000\<close>. Every access to the window is recorded,
  newest first, with the halfword index and the value that went over the bus.
\<close>

datatype access = Rd nat u16 | Wr nat u16

record hw =
  exmemcnt :: u16
  bus :: "access list"

text \<open>
  The cartridge is a parameter of every routine: the value a read of halfword \<open>idx\<close>
  returns, given every access made before it. A flash chip in read mode, a chip whose
  status bits toggle while it is busy, and a chip that never answers are all instances.
\<close>

type_synonym cart = "access list \<Rightarrow> nat \<Rightarrow> u16"

definition bus_write :: "nat \<Rightarrow> u16 \<Rightarrow> hw \<Rightarrow> hw" where
  "bus_write idx v s = s\<lparr>bus := Wr idx v # bus s\<rparr>"

definition bus_read :: "cart \<Rightarrow> nat \<Rightarrow> hw \<Rightarrow> u16 \<times> hw" where
  "bus_read dev idx s = (let v = dev (bus s) idx in (v, s\<lparr>bus := Rd idx v # bus s\<rparr>))"

text \<open>
  From libnds, which the tool links against: \<^verbatim>\<open>ARM7_OWNS_ROM\<close> is bit 7 of
  \<^verbatim>\<open>REG_EXMEMCNT\<close>, \<^verbatim>\<open>BUS_OWNER_ARM9\<close> is \<^verbatim>\<open>true\<close>, and
  \<^verbatim>\<open>sysSetCartOwner(arm9)\<close> clears the bit and sets it again unless \<open>arm9\<close>.
  \<^verbatim>\<open>sysGetCartOwner\<close> is the tool's own.
\<close>

definition ARM7_OWNS_ROM :: u16 where
  "ARM7_OWNS_ROM = 0x80"

definition BUS_OWNER_ARM9 :: bool where
  "BUS_OWNER_ARM9 = True"

definition sysGetCartOwner :: "hw \<Rightarrow> bool" where
  "sysGetCartOwner s = (\<not> (exmemcnt s AND ARM7_OWNS_ROM \<noteq> 0))"

definition sysSetCartOwner :: "bool \<Rightarrow> hw \<Rightarrow> hw" where
  "sysSetCartOwner arm9 s =
     s\<lparr>exmemcnt := (exmemcnt s AND NOT ARM7_OWNS_ROM) OR (if arm9 then 0 else ARM7_OWNS_ROM)\<rparr>"

subsection \<open>The mapping mode handshake\<close>

definition MAPPED_FIRMWARE :: u32 where
  "MAPPED_FIRMWARE = 0"

definition MAPPED_SDRAM :: u32 where
  "MAPPED_SDRAM = 1"

definition MODESWITCH_MAGIC :: u16 where
  "MODESWITCH_MAGIC = 0xA55A"

text \<open>\<^verbatim>\<open>REG_SD_MODE\<close> is the halfword at \<^verbatim>\<open>0x09FFFFFE\<close>, the last one of the window.\<close>

definition REG_SD_MODE :: nat where
  "REG_SD_MODE = (0x09FFFFFE - 0x08000000) div 2"

definition set_supercard_mode :: "u32 \<Rightarrow> bool \<Rightarrow> bool \<Rightarrow> hw \<Rightarrow> hw" where
  "set_supercard_mode mapped_area write_access sdcard_interface s =
     (let value = (ucast (mapped_area OR (if sdcard_interface then 0x2 else 0x0)
                                      OR (if write_access then 0x4 else 0x0)) :: u16);
          s = bus_write REG_SD_MODE MODESWITCH_MAGIC s;
          s = bus_write REG_SD_MODE MODESWITCH_MAGIC s;
          s = bus_write REG_SD_MODE value s;
          s = bus_write REG_SD_MODE value s
      in s)"

text \<open>
  What the cartridge makes of it, as the comments of \<^verbatim>\<open>set_supercard_mode\<close> describe
  the register: the magic value written twice and then a mode value written twice
  selects that mode. Bit 0 of the mode value maps the SDRAM instead of the internal
  flash, bit 1 maps the SD card interface, bit 2 grants write access.
\<close>

fun sd_mode_writes :: "access list \<Rightarrow> u16 list" where
  "sd_mode_writes [] = []"
| "sd_mode_writes (Wr idx v # t) =
     (if idx = REG_SD_MODE then v # sd_mode_writes t else sd_mode_writes t)"
| "sd_mode_writes (Rd idx v # t) = sd_mode_writes t"

definition supercard_mode :: "access list \<Rightarrow> u16 option" where
  "supercard_mode t =
     (case sd_mode_writes t of
        v # v' # m # m' # _ \<Rightarrow>
          if v = v' \<and> m = MODESWITCH_MAGIC \<and> m' = MODESWITCH_MAGIC then Some v else None
      | _ \<Rightarrow> None)"

definition mode_sdram :: "u16 \<Rightarrow> bool" where
  "mode_sdram v = bit v 0"

definition mode_sdcard :: "u16 \<Rightarrow> bool" where
  "mode_sdcard v = bit v 1"

definition mode_write_access :: "u16 \<Rightarrow> bool" where
  "mode_write_access v = bit v 2"

text \<open>The mode in force at each read of the window, newest read first.\<close>

fun read_modes :: "access list \<Rightarrow> u16 option list" where
  "read_modes [] = []"
| "read_modes (Rd idx v # t) = supercard_mode t # read_modes t"
| "read_modes (Wr idx v # t) = read_modes t"

section \<open>FlashController\<close>

text \<open>\<^verbatim>\<open>for (i = 0; i < 32; i++) SLOT2_BASE_U16[0] = 0x00F0;\<close>, with the count as argument.\<close>

primrec reset_cycles :: "nat \<Rightarrow> hw \<Rightarrow> hw" where
  "reset_cycles 0 s = s"
| "reset_cycles (Suc n) s = reset_cycles n (bus_write 0 0x00F0 s)"

subsection \<open>flash_ident\<close>

definition flash_ident :: "cart \<Rightarrow> hw \<Rightarrow> u32 \<times> hw" where
  "flash_ident dev s0 =
     (let pmode = sysGetCartOwner s0;
          s = sysSetCartOwner BUS_OWNER_ARM9 s0;
          s = set_supercard_mode MAPPED_FIRMWARE True False s;
          s = s\<lparr>exmemcnt := exmemcnt s OR 0xF\<rparr>;
          s = reset_cycles 32 s;
          s = bus_write (unat (addr_perm 0x555)) 0x00AA s;
          s = bus_write (unat (addr_perm 0x2AA)) 0x0055 s;
          s = bus_write (unat (addr_perm 0x555)) 0x0090 s;
          (hi, s) = bus_read dev (unat (addr_perm 0x000)) s;
          ret = push_bit 16 (ucast hi);
          (lo, s) = bus_read dev (unat (addr_perm 0x001)) s;
          ret = ret OR ucast lo;
          s = reset_cycles 32 s;
          s = set_supercard_mode MAPPED_FIRMWARE False False s;
          s = sysSetCartOwner pmode s
      in (ret, s))"

subsection \<open>flash_erase\<close>

text \<open>
  The wait loop of \<^verbatim>\<open>flash_erase\<close>: at most \<open>60 * 1000\<close> rounds, each reading the
  status location twice, left on the first round whose two reads agree.
  \<^verbatim>\<open>sleep_1ms\<close> touches no state.
\<close>

function erase_wait :: "cart \<Rightarrow> nat \<Rightarrow> hw \<Rightarrow> hw" where
  "erase_wait dev i s =
     (if i < 60 * 1000 then
        (let (a, s1) = bus_read dev 0 s;
             (b, s2) = bus_read dev 0 s1
         in if a = b then s2 else erase_wait dev (i + 1) s2)
      else s)"
  by pat_completeness auto
termination
  by (relation "measure (\<lambda>(dev, i, s). 60 * 1000 - i)") auto

declare erase_wait.simps [simp del]

definition flash_erase :: "cart \<Rightarrow> hw \<Rightarrow> bool \<times> hw" where
  "flash_erase dev s0 =
     (let pmode = sysGetCartOwner s0;
          s = sysSetCartOwner BUS_OWNER_ARM9 s0;
          s = set_supercard_mode MAPPED_FIRMWARE True False s;
          s = s\<lparr>exmemcnt := exmemcnt s OR 0xF\<rparr>;
          s = reset_cycles 32 s;
          s = bus_write (unat (addr_perm 0x555)) 0x00AA s;
          s = bus_write (unat (addr_perm 0x2AA)) 0x0055 s;
          s = bus_write (unat (addr_perm 0x555)) 0x0080 s;
          s = bus_write (unat (addr_perm 0x555)) 0x00AA s;
          s = bus_write (unat (addr_perm 0x2AA)) 0x0055 s;
          s = bus_write (unat (addr_perm 0x555)) 0x0010 s;
          s = erase_wait dev 0 s;
          (a, s) = bus_read dev 0 s;
          (b, s) = bus_read dev 0 s;
          retok = (a = b);
          s = reset_cycles 32 s;
          s = set_supercard_mode MAPPED_FIRMWARE False False s;
          s = sysSetCartOwner pmode s
      in (retok, s))"

subsection \<open>flash_erase_check\<close>

function erase_check_loop :: "cart \<Rightarrow> nat \<Rightarrow> bool \<Rightarrow> hw \<Rightarrow> bool \<times> hw" where
  "erase_check_loop dev i errf s =
     (if i < 512 * 1024 then
        (let (v, s) = bus_read dev (i div 2) s;
             errf = (v \<noteq> 0xFFFF)
         in if errf then (errf, s) else erase_check_loop dev (i + 2) errf s)
      else (errf, s))"
  by pat_completeness auto
termination
  by (relation "measure (\<lambda>(dev, i, errf, s). 512 * 1024 - i)") auto

declare erase_check_loop.simps [simp del]

definition flash_erase_check :: "cart \<Rightarrow> hw \<Rightarrow> bool \<times> hw" where
  "flash_erase_check dev s0 =
     (let pmode = sysGetCartOwner s0;
          s = sysSetCartOwner BUS_OWNER_ARM9 s0;
          s = set_supercard_mode MAPPED_FIRMWARE True False s;
          s = s\<lparr>exmemcnt := exmemcnt s OR 0xF\<rparr>;
          (errf, s) = erase_check_loop dev 0 False s;
          s = set_supercard_mode MAPPED_FIRMWARE False False s;
          s = sysSetCartOwner pmode s
      in (errf, s))"

subsection \<open>flash_write\<close>

text \<open>
  The image is a byte buffer. C gives no meaning to a read past its end, so a read
  at such an offset is an outcome of its own and ends the run.
\<close>

datatype error = BufferOverread nat

definition buf_read :: "u8 list \<Rightarrow> nat \<Rightarrow> error + u8" where
  "buf_read buf j = (if j < length buf then Inr (buf ! j) else Inl (BufferOverread j))"

function write_wait :: "cart \<Rightarrow> nat \<Rightarrow> hw \<Rightarrow> hw" where
  "write_wait dev j s =
     (if j < 32 * 1024 then
        (let (a, s1) = bus_read dev 0 s;
             (b, s2) = bus_read dev 0 s1
         in if a = b then s2 else write_wait dev (j + 1) s2)
      else s)"
  by pat_completeness auto
termination
  by (relation "measure (\<lambda>(dev, j, s). 32 * 1024 - j)") auto

declare write_wait.simps [simp del]

text \<open>
  One round of the loop of \<^verbatim>\<open>flash_write\<close>, for the word at byte offset \<open>i\<close>: the
  result is whether the loop goes on (the word was programmed and read back equal),
  with the state reached. The readback is behind \<^verbatim>\<open>||\<close>: it is not made when
  \<open>notfinished\<close> already holds.
\<close>

definition flash_write_word :: "cart \<Rightarrow> u8 list \<Rightarrow> nat \<Rightarrow> hw \<Rightarrow> error + bool \<times> hw" where
  "flash_write_word dev buf i s =
     (case buf_read buf i of Inl e \<Rightarrow> Inl e | Inr lo \<Rightarrow>
     (case buf_read buf (i + 1) of Inl e \<Rightarrow> Inl e | Inr hi \<Rightarrow>
        (let value = (ucast lo OR push_bit 8 (ucast hi) :: u16);
             s = bus_write (unat (addr_perm 0x555)) 0x00AA s;
             s = bus_write (unat (addr_perm 0x2AA)) 0x0055 s;
             s = bus_write (unat (addr_perm 0x555)) 0x00A0 s;
             s = bus_write (i div 2) value s;
             s = write_wait dev 0 s;
             (a, s) = bus_read dev 0 s;
             (b, s) = bus_read dev 0 s;
             notfinished = (a \<noteq> b);
             s = bus_write 0 0x00F0 s
         in if notfinished then Inr (False, s)
            else (let (r, s) = bus_read dev (i div 2) s
                  in if r \<noteq> value then Inr (False, s) else Inr (True, s)))))"

text \<open>
  The loop itself. The counter is a natural number: \<open>i + 2\<close> cannot wrap before the
  loop is left unless the size is \<open>2 ^ 32 - 1\<close>, and \<^verbatim>\<open>select_image\<close>, the only caller,
  passes no size above \<open>512 * 1024\<close>.
\<close>

function flash_write_loop :: "cart \<Rightarrow> u8 list \<Rightarrow> nat \<Rightarrow> nat \<Rightarrow> hw \<Rightarrow> error + bool \<times> hw" where
  "flash_write_loop dev buf size' i s =
     (if i < size' then
        (case flash_write_word dev buf i s of
           Inl e \<Rightarrow> Inl e
         | Inr (continue, s) \<Rightarrow>
             if continue then flash_write_loop dev buf size' (i + 2) s else Inr (False, s))
      else Inr (True, s))"
  by pat_completeness auto
termination
  by (relation "measure (\<lambda>(dev, buf, size', i, s). size' - i)") auto

declare flash_write_loop.simps [simp del]

definition flash_write :: "cart \<Rightarrow> u8 list \<Rightarrow> nat \<Rightarrow> hw \<Rightarrow> error + bool \<times> hw" where
  "flash_write dev buf size' s0 =
     (let pmode = sysGetCartOwner s0;
          s = sysSetCartOwner BUS_OWNER_ARM9 s0;
          s = set_supercard_mode MAPPED_FIRMWARE True False s;
          s = s\<lparr>exmemcnt := exmemcnt s OR 0xF\<rparr>;
          s = bus_write 0 0x00F0 s
      in case flash_write_loop dev buf size' 0 s of
           Inl e \<Rightarrow> Inl e
         | Inr (ok, s) \<Rightarrow>
             (let s = set_supercard_mode MAPPED_FIRMWARE False False s;
                  s = sysSetCartOwner pmode s
              in Inr (ok, s)))"

subsection \<open>flash_validate and flash_dump\<close>

text \<open>
  \<^verbatim>\<open>memcmp\<close> and \<^verbatim>\<open>memcpy\<close> on the window at \<^verbatim>\<open>0x08000000\<close>: the bus is 16 bits
  wide and the processor little-endian, so \<open>n\<close> bytes are \<open>(n + 1) div 2\<close> halfword
  reads in ascending order, low byte first.
\<close>

fun slot2_read_bytes :: "cart \<Rightarrow> nat \<Rightarrow> nat \<Rightarrow> hw \<Rightarrow> u8 list \<times> hw" where
  "slot2_read_bytes dev idx 0 s = ([], s)"
| "slot2_read_bytes dev idx (Suc 0) s =
     (let (v, s) = bus_read dev idx s in ([ucast v], s))"
| "slot2_read_bytes dev idx (Suc (Suc n)) s =
     (let (v, s) = bus_read dev idx s;
          (rest, s) = slot2_read_bytes dev (idx + 1) n s
      in (ucast v # ucast (drop_bit 8 v) # rest, s))"

text \<open>
  \<^verbatim>\<open>flash_validate\<close> returns from the middle of its body: the two calls that follow
  the \<^verbatim>\<open>return\<close> statement are never reached, and the saved \<open>pmode\<close> is never used.
\<close>

definition flash_validate :: "cart \<Rightarrow> u8 list \<Rightarrow> nat \<Rightarrow> hw \<Rightarrow> bool \<times> hw" where
  "flash_validate dev fwimg fwsize s0 =
     (let pmode = sysGetCartOwner s0;
          s = sysSetCartOwner BUS_OWNER_ARM9 s0;
          s = set_supercard_mode MAPPED_FIRMWARE True False s;
          (rom, s) = slot2_read_bytes dev 0 fwsize s
      in (take fwsize fwimg = rom, s))"

text \<open>
  \<^verbatim>\<open>flash_dump\<close>: whether \<^verbatim>\<open>fopen\<close> succeeds is the file system's answer, an
  argument here; the bytes handed to \<^verbatim>\<open>fwrite\<close> are part of the result.
\<close>

definition flash_dump :: "cart \<Rightarrow> bool \<Rightarrow> hw \<Rightarrow> (bool \<times> u8 list option) \<times> hw" where
  "flash_dump dev fopen_ok s0 =
     (let pmode = sysGetCartOwner s0;
          s = sysSetCartOwner BUS_OWNER_ARM9 s0;
          s = set_supercard_mode MAPPED_FIRMWARE True False s;
          (data, s) = slot2_read_bytes dev 0 (512 * 1024) s;
          s = set_supercard_mode MAPPED_FIRMWARE False False s;
          s = sysSetCartOwner pmode s
      in if \<not> fopen_ok then ((False, None), s) else ((True, Some data), s))"

section \<open>HashEngine: SHA-256\<close>

subsection \<open>Byte order\<close>

text \<open>
  \<^verbatim>\<open>sha256.c\<close> is compiled for either byte order: \<open>read32be\<close> and \<open>read64be\<close> swap
  the bytes on a little-endian host and do nothing on a big-endian one. The host's
  byte order is the argument \<open>le\<close> of everything below; it also decides how a word is
  read from, or laid out in, a byte buffer that the code accesses through a
  \<^verbatim>\<open>uint32_t*\<close> or \<^verbatim>\<open>uint64_t*\<close>.
\<close>

definition bswap32 :: "u32 \<Rightarrow> u32" where
  "bswap32 x =
     push_bit 24 (x AND 0xFF) OR push_bit 8 (x AND 0xFF00) OR
     (drop_bit 8 x AND 0xFF00) OR (drop_bit 24 x AND 0xFF)"

definition bswap64 :: "u64 \<Rightarrow> u64" where
  "bswap64 x =
     push_bit 56 (x AND 0xFF) OR push_bit 40 (x AND 0xFF00) OR
     push_bit 24 (x AND 0xFF0000) OR push_bit 8 (x AND 0xFF000000) OR
     (drop_bit 8 x AND 0xFF000000) OR (drop_bit 24 x AND 0xFF0000) OR
     (drop_bit 40 x AND 0xFF00) OR (drop_bit 56 x AND 0xFF)"

definition read32be :: "bool \<Rightarrow> u32 \<Rightarrow> u32" where
  "read32be le x = (if le then bswap32 x else x)"

definition read64be :: "bool \<Rightarrow> u64 \<Rightarrow> u64" where
  "read64be le x = (if le then bswap64 x else x)"

text \<open>\<open>((uint32_t*)mem)[i]\<close>, and the bytes that storing a word puts into memory.\<close>

definition load_u32 :: "bool \<Rightarrow> u8 list \<Rightarrow> nat \<Rightarrow> u32" where
  "load_u32 le mem i =
     (let b0 = ucast (mem ! (4 * i)); b1 = ucast (mem ! (4 * i + 1));
          b2 = ucast (mem ! (4 * i + 2)); b3 = ucast (mem ! (4 * i + 3))
      in if le then b0 OR push_bit 8 b1 OR push_bit 16 b2 OR push_bit 24 b3
         else push_bit 24 b0 OR push_bit 16 b1 OR push_bit 8 b2 OR b3)"

definition store_u32 :: "bool \<Rightarrow> u32 \<Rightarrow> u8 list" where
  "store_u32 le x =
     (let bs = [ucast x, ucast (drop_bit 8 x), ucast (drop_bit 16 x), ucast (drop_bit 24 x)]
      in if le then bs else rev bs)"

definition store_u64 :: "bool \<Rightarrow> u64 \<Rightarrow> u8 list" where
  "store_u64 le x =
     (let bs = [ucast x, ucast (drop_bit 8 x), ucast (drop_bit 16 x), ucast (drop_bit 24 x),
                ucast (drop_bit 32 x), ucast (drop_bit 40 x), ucast (drop_bit 48 x),
                ucast (drop_bit 56 x)]
      in if le then bs else rev bs)"

subsection \<open>The compression function\<close>

definition rotr :: "u32 \<Rightarrow> nat \<Rightarrow> u32" where
  "rotr x a = drop_bit a x OR push_bit (32 - a) x"

definition sha256_kinit :: "u32 list" where
  "sha256_kinit =
     [0x6A09E667, 0xBB67AE85, 0x3C6EF372, 0xA54FF53A,
      0x510E527F, 0x9B05688C, 0x1F83D9AB, 0x5BE0CD19]"

definition sha256k :: "u32 list" where
  "sha256k =
     [0x428A2F98, 0x71374491, 0xB5C0FBCF, 0xE9B5DBA5, 0x3956C25B, 0x59F111F1, 0x923F82A4, 0xAB1C5ED5,
      0xD807AA98, 0x12835B01, 0x243185BE, 0x550C7DC3, 0x72BE5D74, 0x80DEB1FE, 0x9BDC06A7, 0xC19BF174,
      0xE49B69C1, 0xEFBE4786, 0x0FC19DC6, 0x240CA1CC, 0x2DE92C6F, 0x4A7484AA, 0x5CB0A9DC, 0x76F988DA,
      0x983E5152, 0xA831C66D, 0xB00327C8, 0xBF597FC7, 0xC6E00BF3, 0xD5A79147, 0x06CA6351, 0x14292967,
      0x27B70A85, 0x2E1B2138, 0x4D2C6DFC, 0x53380D13, 0x650A7354, 0x766A0ABB, 0x81C2C92E, 0x92722C85,
      0xA2BFE8A1, 0xA81A664B, 0xC24B8B70, 0xC76C51A3, 0xD192E819, 0xD6990624, 0xF40E3585, 0x106AA070,
      0x19A4C116, 0x1E376C08, 0x2748774C, 0x34B0BCB5, 0x391C0CB3, 0x4ED8AA4A, 0x5B9CCA4F, 0x682E6FF3,
      0x748F82EE, 0x78A5636F, 0x84C87814, 0x8CC70208, 0x90BEFFFA, 0xA4506CEB, 0xBEF9A3F7, 0xC67178F2]"

text \<open>
  One pass through the body of the 64-round loop of \<^verbatim>\<open>sha256_transform\<close>, on the
  working variables \<open>ls\<close> and the 16-word schedule buffer \<open>w\<close>, which the code
  updates in place.
\<close>

definition sha256_round :: "nat \<Rightarrow> u32 list \<times> u32 list \<Rightarrow> u32 list \<times> u32 list" where
  "sha256_round i lw =
     (let ls = fst lw; w = snd lw;
          widx = i AND 15;
          s1 = rotr (ls ! 4) 6 XOR rotr (ls ! 4) 11 XOR rotr (ls ! 4) 25;
          ch = (ls ! 4 AND ls ! 5) XOR (NOT (ls ! 4) AND ls ! 6);
          t1 = ls ! 7 + s1 + ch + sha256k ! i + w ! widx;
          s0 = rotr (ls ! 0) 2 XOR rotr (ls ! 0) 13 XOR rotr (ls ! 0) 22;
          mj = (ls ! 0 AND ls ! 1) XOR (ls ! 0 AND ls ! 2) XOR (ls ! 1 AND ls ! 2);
          t2 = s0 + mj;
          w1 = w ! ((i + 1) AND 15);
          w9 = w ! ((i + 9) AND 15);
          w14 = w ! ((i + 14) AND 15);
          w = w[widx := w ! widx + (w9 +
                 (rotr w1 7 XOR rotr w1 18 XOR drop_bit 3 w1) +
                 (rotr w14 17 XOR rotr w14 19 XOR drop_bit 10 w14))]
      in ([t1 + t2, ls ! 0, ls ! 1, ls ! 2, ls ! 3 + t1, ls ! 4, ls ! 5, ls ! 6], w))"

definition sha256_transform :: "bool \<Rightarrow> u32 list \<Rightarrow> u8 list \<Rightarrow> u32 list" where
  "sha256_transform le state data =
     (let w = map (\<lambda>i. read32be le (load_u32 le data i)) [0..<16];
          ls = state;
          ls = fst (fold sha256_round [0..<64] (ls, w))
      in map (\<lambda>i. state ! i + ls ! i) [0..<8])"

subsection \<open>Padding and the one-shot hash\<close>

text \<open>
  The \<^verbatim>\<open>while (length >= 64)\<close> loop of \<^verbatim>\<open>sha256_internal\<close>. \<open>length'\<close> is the
  32-bit \<^verbatim>\<open>unsigned length\<close>; the buffer pointer advances by dropping what was
  consumed.
\<close>

function sha256_loop :: "bool \<Rightarrow> u32 list \<Rightarrow> u8 list \<Rightarrow> u32 \<Rightarrow> u32 list \<times> u8 list \<times> u32" where
  "sha256_loop le state inbuffer length' =
     (if 64 \<le> length' then
        sha256_loop le (sha256_transform le state inbuffer) (drop 64 inbuffer) (length' - 64)
      else (state, inbuffer, length'))"
  by pat_completeness auto
termination
  by (relation "measure (\<lambda>(le, state, inbuffer, length'). unat length')")
     (simp_all add: unat_sub word_le_nat_alt)

declare sha256_loop.simps [simp del]

text \<open>
  \<^verbatim>\<open>uint64_t bitlen = length << 3;\<close> shifts the 32-bit \<open>length'\<close> as a 32-bit value
  and widens the result.
\<close>

definition sha256_internal :: "bool \<Rightarrow> u8 list \<Rightarrow> u32 \<Rightarrow> u32 list" where
  "sha256_internal le inbuffer length' =
     (let bitlen = (ucast (push_bit 3 length' :: u32) :: u64);
          (state, inbuffer, length') = sha256_loop le sha256_kinit inbuffer length';
          tmp = replicate 64 0;
          tmp = take (unat length') inbuffer @ drop (unat length') tmp;
          tmp = tmp[unat length' := 0x80];
          (state, tmp) =
            (if 56 \<le> length' then (sha256_transform le state tmp, replicate 64 0)
             else (state, tmp));
          tmp = take 56 tmp @ store_u64 le (read64be le bitlen)
      in sha256_transform le state tmp)"

text \<open>
  \<^verbatim>\<open>sha256sum\<close>: the result is the 32 bytes found in the output buffer once each
  state word has been passed through \<open>read32be\<close> and stored back.
\<close>

definition sha256sum :: "bool \<Rightarrow> u8 list \<Rightarrow> u32 \<Rightarrow> u8 list" where
  "sha256sum le inbuffer length' =
     (let state = sha256_internal le inbuffer length';
          state = map (read32be le) state
      in concat (map (store_u32 le) state))"

text \<open>
  The same run of \<^verbatim>\<open>sha256_internal\<close>, recording instead of the state the 64-byte
  blocks that are handed to \<^verbatim>\<open>sha256_transform\<close>, in order.
\<close>

function sha256_loop_blocks :: "u8 list \<Rightarrow> u32 \<Rightarrow> u8 list list \<times> u8 list \<times> u32" where
  "sha256_loop_blocks inbuffer length' =
     (if 64 \<le> length' then
        (let (blocks, rest, l) = sha256_loop_blocks (drop 64 inbuffer) (length' - 64)
         in (take 64 inbuffer # blocks, rest, l))
      else ([], inbuffer, length'))"
  by pat_completeness auto
termination
  by (relation "measure (\<lambda>(inbuffer, length'). unat length')")
     (simp_all add: unat_sub word_le_nat_alt)

declare sha256_loop_blocks.simps [simp del]

definition sha256_blocks :: "bool \<Rightarrow> u8 list \<Rightarrow> u32 \<Rightarrow> u8 list list" where
  "sha256_blocks le inbuffer length' =
     (let bitlen = (ucast (push_bit 3 length' :: u32) :: u64);
          (blocks, inbuffer, length') = sha256_loop_blocks inbuffer length';
          tmp = replicate 64 0;
          tmp = take (unat length') inbuffer @ drop (unat length') tmp;
          tmp = tmp[unat length' := 0x80];
          (blocks, tmp) =
            (if 56 \<le> length' then (blocks @ [tmp], replicate 64 0)
             else (blocks, tmp));
          tmp = take 56 tmp @ store_u64 le (read64be le bitlen)
      in blocks @ [tmp])"

subsection \<open>The padding rule of the specification\<close>

text \<open>
  The message, a single \<open>0x80\<close> byte, the least number of zero bytes that makes the
  total a multiple of 64, and the bit length of the message as a 64-bit big-endian
  number.
\<close>

definition be64 :: "nat \<Rightarrow> u8 list" where
  "be64 n = map (\<lambda>i. of_nat (n div 2 ^ (8 * (7 - i)))) [0..<8]"

definition sha256_pad :: "u8 list \<Rightarrow> u8 list" where
  "sha256_pad msg =
     msg @ [0x80] @ replicate ((119 - length msg mod 64) mod 64) 0 @ be64 (8 * length msg)"

primrec chunks64 :: "nat \<Rightarrow> u8 list \<Rightarrow> u8 list list" where
  "chunks64 0 bs = []"
| "chunks64 (Suc n) bs = take 64 bs # chunks64 n (drop 64 bs)"

section \<open>ImageValidator: known firmware images\<close>

definition known_images :: "(string \<times> u8 list) list" where
  "known_images =
     [(''Empty/Zeroed'',
       [0x07,0x85,0x4D,0x2F,0xEF,0x29,0x7A,0x06,0xBA,0x81,0x68,0x5E,0x66,0x0C,0x33,0x2D]),
      (''Empty/Cleared'',
       [0x04,0x3E,0x23,0x8A,0x76,0x5F,0x7C,0xFB,0xC6,0x25,0x96,0xA5,0x0E,0x53,0xC8,0xFF]),
      (''Official firmware v1.85 (EN)'',
       [0xC1,0x1D,0x86,0x4D,0x39,0xA4,0x58,0x60,0xA7,0xC5,0xC3,0x4C,0xA6,0x65,0xA9,0xC1])]"

text \<open>
  The loop of \<^verbatim>\<open>firmware_ident\<close> over the table: \<^verbatim>\<open>memcmp\<close> compares the 16 bytes
  of an entry with the first 16 bytes of the hash. \<open>None\<close> is the \<^verbatim>\<open>NULL\<close> result.
\<close>

fun ident_scan :: "u8 list \<Rightarrow> (string \<times> u8 list) list \<Rightarrow> string option" where
  "ident_scan hash [] = None"
| "ident_scan hash (e # es) =
     (if take 16 hash = snd e then Some (fst e) else ident_scan hash es)"

text \<open>\<open>rom\<close> is the content of the window at \<^verbatim>\<open>0x08000000\<close>, of which 512 KiB are hashed.\<close>

definition firmware_ident :: "bool \<Rightarrow> u8 list \<Rightarrow> string option" where
  "firmware_ident le rom =
     (let hash = sha256sum le rom (512 * 1024)
      in ident_scan hash known_images)"

subsection \<open>The round on a sliding schedule window\<close>

text \<open>
  The textbook form of the round: the schedule is a window of 16 words with the word
  of the current round at its head; each round drops the head and appends the word
  that will be needed 16 rounds later. \<open>k\<close> is the round constant.
\<close>

definition sha_step :: "u32 \<Rightarrow> u32 list \<times> u32 list \<Rightarrow> u32 list \<times> u32 list" where
  "sha_step k lw =
     (let ls = fst lw; v = snd lw;
          s1 = rotr (ls ! 4) 6 XOR rotr (ls ! 4) 11 XOR rotr (ls ! 4) 25;
          ch = (ls ! 4 AND ls ! 5) XOR (NOT (ls ! 4) AND ls ! 6);
          t1 = ls ! 7 + s1 + ch + k + v ! 0;
          s0 = rotr (ls ! 0) 2 XOR rotr (ls ! 0) 13 XOR rotr (ls ! 0) 22;
          mj = (ls ! 0 AND ls ! 1) XOR (ls ! 0 AND ls ! 2) XOR (ls ! 1 AND ls ! 2);
          t2 = s0 + mj;
          wn = v ! 0 + (v ! 9 +
                 (rotr (v ! 1) 7 XOR rotr (v ! 1) 18 XOR drop_bit 3 (v ! 1)) +
                 (rotr (v ! 14) 17 XOR rotr (v ! 14) 19 XOR drop_bit 10 (v ! 14)))
      in ([t1 + t2, ls ! 0, ls ! 1, ls ! 2, ls ! 3 + t1, ls ! 4, ls ! 5, ls ! 6], tl v @ [wn]))"

text \<open>The 16 message words of a block, read big-endian.\<close>

definition be_word :: "u8 list \<Rightarrow> nat \<Rightarrow> u32" where
  "be_word data i =
     push_bit 24 (ucast (data ! (4 * i))) OR push_bit 16 (ucast (data ! (4 * i + 1))) OR
     push_bit 8 (ucast (data ! (4 * i + 2))) OR ucast (data ! (4 * i + 3))"

definition be_bytes32 :: "u32 \<Rightarrow> u8 list" where
  "be_bytes32 x = [ucast (drop_bit 24 x), ucast (drop_bit 16 x), ucast (drop_bit 8 x), ucast x]"

definition be_bytes64 :: "u64 \<Rightarrow> u8 list" where
  "be_bytes64 x =
     [ucast (drop_bit 56 x), ucast (drop_bit 48 x), ucast (drop_bit 40 x), ucast (drop_bit 32 x),
      ucast (drop_bit 24 x), ucast (drop_bit 16 x), ucast (drop_bit 8 x), ucast x]"

subsection \<open>Words as lists of bits\<close>



section \<open>Vocabulary for the statements\<close>

text \<open>The reads recorded in a trace, newest first, each with its index and value.\<close>

fun reads_of :: "access list \<Rightarrow> (nat \<times> u16) list" where
  "reads_of [] = []"
| "reads_of (Rd idx v # t) = (idx, v) # reads_of t"
| "reads_of (Wr idx v # t) = reads_of t"

text \<open>
  Polling. With the trace \<open>t\<close> behind it, the cartridge is stable when two
  consecutive reads of the status location (halfword 0) return the same value;
  \<open>poll_once\<close> is the trace after these two reads.
\<close>

definition status_stable :: "cart \<Rightarrow> access list \<Rightarrow> bool" where
  "status_stable dev t = (dev t 0 = dev (Rd 0 (dev t 0) # t) 0)"

definition poll_once :: "cart \<Rightarrow> access list \<Rightarrow> access list" where
  "poll_once dev t = Rd 0 (dev (Rd 0 (dev t 0) # t) 0) # Rd 0 (dev t 0) # t"

text \<open>
  The state in which \<open>flash_erase\<close> enters its wait loop: bus taken, write access
  granted, the chip reset and the six command writes of a full chip erase issued.
\<close>

definition erase_issued :: "hw \<Rightarrow> hw" where
  "erase_issued s0 =
     (let s = sysSetCartOwner BUS_OWNER_ARM9 s0;
          s = set_supercard_mode MAPPED_FIRMWARE True False s;
          s = s\<lparr>exmemcnt := exmemcnt s OR 0xF\<rparr>;
          s = reset_cycles 32 s;
          s = bus_write (unat (addr_perm 0x555)) 0x00AA s;
          s = bus_write (unat (addr_perm 0x2AA)) 0x0055 s;
          s = bus_write (unat (addr_perm 0x555)) 0x0080 s;
          s = bus_write (unat (addr_perm 0x555)) 0x00AA s;
          s = bus_write (unat (addr_perm 0x2AA)) 0x0055 s;
          s = bus_write (unat (addr_perm 0x555)) 0x0010 s
      in s)"

text \<open>
  The state in which \<open>flash_write\<close> enters its loop, and the state after the first
  \<open>k\<close> words of the image, provided each of them was programmed and read back
  equal: word \<open>j\<close> is the one at byte offset \<open>2 * j\<close>.
\<close>

definition write_entry :: "hw \<Rightarrow> hw" where
  "write_entry s0 =
     (let s = sysSetCartOwner BUS_OWNER_ARM9 s0;
          s = set_supercard_mode MAPPED_FIRMWARE True False s;
          s = s\<lparr>exmemcnt := exmemcnt s OR 0xF\<rparr>;
          s = bus_write 0 0x00F0 s
      in s)"

primrec words_ok :: "cart \<Rightarrow> u8 list \<Rightarrow> nat \<Rightarrow> hw \<Rightarrow> hw option" where
  "words_ok dev buf 0 s = Some s"
| "words_ok dev buf (Suc k) s =
     (case words_ok dev buf k s of
        None \<Rightarrow> None
      | Some s' \<Rightarrow>
          (case flash_write_word dev buf (2 * k) s' of
             Inr (True, s'') \<Rightarrow> Some s''
           | _ \<Rightarrow> None))"

text \<open>The closing steps shared by the operations: map read-only, give the bus back.\<close>

definition flash_leave :: "hw \<Rightarrow> hw \<Rightarrow> hw" where
  "flash_leave s0 s =
     sysSetCartOwner (sysGetCartOwner s0) (set_supercard_mode MAPPED_FIRMWARE False False s)"

text \<open>Three cartridges to run the routines on.\<close>

definition steady_cart :: cart where
  "steady_cart t idx = 0xFFFF"

definition toggling_cart :: cart where
  "toggling_cart t idx = of_nat (length (reads_of t))"

definition late_cart :: cart where
  "late_cart t idx =
     (if length (reads_of t) < 2 * (60 * 1000) then of_nat (length (reads_of t)) else 0)"

definition relapsing_cart :: cart where
  "relapsing_cart t idx = (if length (reads_of t) = 3 then 1 else 0)"

text \<open>
  The number of rounds that a polling loop with a budget of \<open>n\<close> rounds makes from the
  trace \<open>t\<close>: each round reads the status location twice, and the loop is left at the
  first round whose two reads are identical.
\<close>

primrec poll_rounds :: "cart \<Rightarrow> nat \<Rightarrow> access list \<Rightarrow> nat" where
  "poll_rounds dev 0 t = 0"
| "poll_rounds dev (Suc n) t =
     (if status_stable dev t then 1 else Suc (poll_rounds dev n (poll_once dev t)))"


definition program_sequence :: "nat \<Rightarrow> u16 \<Rightarrow> access list \<Rightarrow> access list" where
  "program_sequence j v t =
     Wr j v # Wr (unat (addr_perm 0x555)) 0x00A0 # Wr (unat (addr_perm 0x2AA)) 0x0055 #
     Wr (unat (addr_perm 0x555)) 0x00AA # t"










text \<open>
  The copy out of the window, seen on the bus: the state in which \<open>flash_validate\<close>
  and \<open>flash_dump\<close> start to copy; the trace after reading the \<open>n\<close> halfwords
  \<open>base, \<dots>, base + n - 1\<close> in this order, each read returning what the cartridge
  answers at that moment; and the first \<open>size'\<close> bytes of what these reads returned,
  low byte first. The window starts at halfword \<open>0\<close>.
\<close>

definition readback_entry :: "hw \<Rightarrow> hw" where
  "readback_entry s0 =
     set_supercard_mode MAPPED_FIRMWARE True False (sysSetCartOwner BUS_OWNER_ARM9 s0)"

definition halfword_bytes :: "u16 \<Rightarrow> u8 list" where
  "halfword_bytes v = [ucast v, ucast (drop_bit 8 v)]"

primrec window_reads :: "cart \<Rightarrow> nat \<Rightarrow> nat \<Rightarrow> access list \<Rightarrow> access list" where
  "window_reads dev base 0 t = t"
| "window_reads dev base (Suc n) t =
     Rd (base + n) (dev (window_reads dev base n t) (base + n)) # window_reads dev base n t"

definition window_bytes :: "cart \<Rightarrow> nat \<Rightarrow> nat \<Rightarrow> access list \<Rightarrow> u8 list" where
  "window_bytes dev base size' t =
     take size' (concat (map (\<lambda>j. halfword_bytes (dev (window_reads dev base j t) (base + j)))
       [0..<(size' + 1) div 2]))"

section \<open>Properties of the address permutation\<close>

lemma single_bit_masks:
  "(0x001::u32) = 2 ^ 0" "(0x004::u32) = 2 ^ 2" "(0x008::u32) = 2 ^ 3" "(0x010::u32) = 2 ^ 4"
  "(0x020::u32) = 2 ^ 5" "(0x040::u32) = 2 ^ 6" "(0x080::u32) = 2 ^ 7" "(0x100::u32) = 2 ^ 8"
  by simp_all

lemma bit_keep_mask: "bit (0xFFFFFE02 :: u32) n \<longleftrightarrow> n = 1 \<or> (9 \<le> n \<and> n < 32)"
proof -
  have e: "(0xFFFFFE02 :: u32) = push_bit 9 (mask 23) OR push_bit 1 1"
    by (simp add: mask_eq_exp_minus_1)
  show ?thesis
    unfolding e by (auto simp add: bit_or_iff bit_push_bit_iff bit_mask_iff bit_2_iff)
qed

lemma bit_addr_perm:
  "bit (addr_perm a) n \<longleftrightarrow>
     (n = 1 \<or> 9 \<le> n) \<and> bit a n \<or>
     n = 7 \<and> bit a 0 \<or> n = 6 \<and> bit a 2 \<or> n = 5 \<and> bit a 3 \<or> n = 0 \<and> bit a 4 \<or>
     n = 2 \<and> bit a 5 \<or> n = 8 \<and> bit a 6 \<or> n = 4 \<and> bit a 7 \<or> n = 3 \<and> bit a 8"
proof -
  have lt: "bit a n \<Longrightarrow> n < 32" for n
    using bit_imp_le_length [of a n] by simp
  have 1: "bit (a AND 0xFFFFFE02) n \<longleftrightarrow> (n = 1 \<or> 9 \<le> n) \<and> bit a n"
    using lt [of n] by (simp only: bit_and_iff bit_keep_mask) auto
  have 2: "bit (push_bit 7 (a AND 0x001)) n \<longleftrightarrow> n = 7 \<and> bit a 0"
    unfolding single_bit_masks using lt
    by (simp only: bit_push_bit_iff bit_and_iff bit_exp_iff, auto)
  have 3: "bit (push_bit 4 (a AND 0x004)) n \<longleftrightarrow> n = 6 \<and> bit a 2"
    unfolding single_bit_masks using lt
    by (simp only: bit_push_bit_iff bit_and_iff bit_exp_iff, auto)
  have 4: "bit (push_bit 2 (a AND 0x008)) n \<longleftrightarrow> n = 5 \<and> bit a 3"
    unfolding single_bit_masks using lt
    by (simp only: bit_push_bit_iff bit_and_iff bit_exp_iff, auto)
  have 5: "bit (drop_bit 4 (a AND 0x010)) n \<longleftrightarrow> n = 0 \<and> bit a 4"
    unfolding single_bit_masks using lt
    by (simp only: bit_drop_bit_eq o_apply bit_and_iff bit_exp_iff, auto)
  have 6: "bit (drop_bit 3 (a AND 0x020)) n \<longleftrightarrow> n = 2 \<and> bit a 5"
    unfolding single_bit_masks using lt
    by (simp only: bit_drop_bit_eq o_apply bit_and_iff bit_exp_iff, auto)
  have 7: "bit (push_bit 2 (a AND 0x040)) n \<longleftrightarrow> n = 8 \<and> bit a 6"
    unfolding single_bit_masks using lt
    by (simp only: bit_push_bit_iff bit_and_iff bit_exp_iff, auto)
  have 8: "bit (drop_bit 3 (a AND 0x080)) n \<longleftrightarrow> n = 4 \<and> bit a 7"
    unfolding single_bit_masks using lt
    by (simp only: bit_drop_bit_eq o_apply bit_and_iff bit_exp_iff, auto)
  have 9: "bit (drop_bit 5 (a AND 0x100)) n \<longleftrightarrow> n = 3 \<and> bit a 8"
    unfolding single_bit_masks using lt
    by (simp only: bit_drop_bit_eq o_apply bit_and_iff bit_exp_iff, auto)
  show ?thesis
    unfolding addr_perm_def by (simp only: bit_or_iff 1 2 3 4 5 6 7 8 9 disj_assoc)
qed

text \<open>
  Claim C2, as the code has it. \<open>addr_perm\<close> is a total function on 32-bit words.
  Bits 9 to 31 and bit 1 of the address pass through unchanged, and the other eight low
  bits are moved by the fixed table
  0 \<rightarrow> 7, 2 \<rightarrow> 6, 3 \<rightarrow> 5, 4 \<rightarrow> 0, 5 \<rightarrow> 2, 6 \<rightarrow> 8, 7 \<rightarrow> 4, 8 \<rightarrow> 3:
  bit 6 goes to position 8, and position 2 receives bit 5 alone.
\<close>

theorem addr_perm_table:
  "drop_bit 9 (addr_perm a) = drop_bit 9 a \<and>
   bit (addr_perm a) 1 = bit a 1 \<and>
   bit (addr_perm a) 7 = bit a 0 \<and>
   bit (addr_perm a) 6 = bit a 2 \<and>
   bit (addr_perm a) 5 = bit a 3 \<and>
   bit (addr_perm a) 0 = bit a 4 \<and>
   bit (addr_perm a) 2 = bit a 5 \<and>
   bit (addr_perm a) 8 = bit a 6 \<and>
   bit (addr_perm a) 4 = bit a 7 \<and>
   bit (addr_perm a) 3 = bit a 8"
proof -
  have "drop_bit 9 (addr_perm a) = drop_bit 9 a"
    by (rule bit_eqI) (simp add: bit_drop_bit_eq bit_addr_perm)
  then show ?thesis
    by (simp add: bit_addr_perm)
qed

text \<open>
  Claim C2 as the specification words it sends bit 6 to position 2. At the address
  \<open>0x40\<close>, whose only set bit is bit 6, the code sets bit 8 of the result and leaves
  bit 2 clear.
\<close>

theorem addr_perm_bit6_counterexample:
  "bit (0x40 :: u32) 6 \<and> \<not> bit (addr_perm 0x40) 2 \<and> addr_perm 0x40 = 0x100"
  by (simp add: addr_perm_def)

lemma addr_perm_commands:
  "addr_perm 0x555 = 0x5C9" "addr_perm 0x2AA = 0x236" "addr_perm 0x000 = 0x000" "addr_perm 0x001 = 0x080"
  by (simp_all add: addr_perm_def)

section \<open>The bus owner and the mapping mode\<close>

lemma owner_bit: "sysGetCartOwner s \<longleftrightarrow> \<not> bit (exmemcnt s) 7"
proof -
  have "(0x80 :: u16) = 2 ^ 7" by simp
  then show ?thesis
    unfolding sysGetCartOwner_def ARM7_OWNS_ROM_def
    by (simp only: and_exp_eq_0_iff_not_bit) simp
qed

lemma bit7_0x80: "bit (0x80 :: u16) n \<longleftrightarrow> n = 7"
proof -
  have "(0x80 :: u16) = 2 ^ 7" by simp
  then show ?thesis by (simp only: bit_exp_iff) auto
qed

lemma sysGetCartOwner_set [simp]: "sysGetCartOwner (sysSetCartOwner b s) = b"
  by (simp add: owner_bit sysSetCartOwner_def ARM7_OWNS_ROM_def bit_or_iff bit_and_iff bit_not_iff bit7_0x80)

lemma bus_sysSetCartOwner [simp]: "bus (sysSetCartOwner b s) = bus s"
  by (simp add: sysSetCartOwner_def)

lemma bit7_0xF: "\<not> bit (0xF :: u16) 7"
  by simp

lemma sysGetCartOwner_slow [simp]: "sysGetCartOwner (s\<lparr>exmemcnt := exmemcnt s OR 0xF\<rparr>) = sysGetCartOwner s"
  by (simp add: owner_bit bit_or_iff)

lemma sysGetCartOwner_bus [simp]: "sysGetCartOwner (s\<lparr>bus := t\<rparr>) = sysGetCartOwner s"
  by (simp add: sysGetCartOwner_def)

lemma bus_set_supercard_mode:
  "bus (set_supercard_mode a w sd s) =
     (let v = ucast (a OR (if sd then 0x2 else 0x0) OR (if w then 0x4 else 0x0))
      in Wr REG_SD_MODE v # Wr REG_SD_MODE v # Wr REG_SD_MODE MODESWITCH_MAGIC # Wr REG_SD_MODE MODESWITCH_MAGIC # bus s)"
  by (simp add: set_supercard_mode_def bus_write_def Let_def)

lemma exmemcnt_set_supercard_mode [simp]: "exmemcnt (set_supercard_mode a w sd s) = exmemcnt s"
  by (simp add: set_supercard_mode_def bus_write_def Let_def)

lemma sysGetCartOwner_set_supercard_mode [simp]: "sysGetCartOwner (set_supercard_mode a w sd s) = sysGetCartOwner s"
  by (simp add: sysGetCartOwner_def)

lemma supercard_mode_set:
  "supercard_mode (bus (set_supercard_mode a w sd s)) =
     Some (ucast (a OR (if sd then 0x2 else 0x0) OR (if w then 0x4 else 0x0)))"
  by (simp add: bus_set_supercard_mode supercard_mode_def Let_def)

lemma mode_ro [simp]: "supercard_mode (bus (set_supercard_mode MAPPED_FIRMWARE False False s)) = Some 0"
  by (simp add: supercard_mode_set MAPPED_FIRMWARE_def)

lemma mode_rw [simp]: "supercard_mode (bus (set_supercard_mode MAPPED_FIRMWARE True False s)) = Some 4"
  by (simp add: supercard_mode_set MAPPED_FIRMWARE_def)



lemma supercard_mode_Rd [simp]: "supercard_mode (Rd i v # t) = supercard_mode t"
  by (simp add: supercard_mode_def)

lemma flash_ident_restores:
  "supercard_mode (bus (snd (flash_ident dev s0))) = Some 0 \<and>
   sysGetCartOwner (snd (flash_ident dev s0)) = sysGetCartOwner s0"
  by (simp add: flash_ident_def Let_def split: prod.splits)

lemma flash_erase_restores:
  "supercard_mode (bus (snd (flash_erase dev s0))) = Some 0 \<and>
   sysGetCartOwner (snd (flash_erase dev s0)) = sysGetCartOwner s0"
  by (simp add: flash_erase_def Let_def split: prod.splits)

lemma flash_erase_check_restores:
  "supercard_mode (bus (snd (flash_erase_check dev s0))) = Some 0 \<and>
   sysGetCartOwner (snd (flash_erase_check dev s0)) = sysGetCartOwner s0"
  by (simp add: flash_erase_check_def Let_def split: prod.splits)

lemma flash_write_restores:
  "flash_write dev buf size' s0 = Inr (ok, s) \<Longrightarrow>
   supercard_mode (bus s) = Some 0 \<and> sysGetCartOwner s = sysGetCartOwner s0"
  by (auto simp add: flash_write_def Let_def split: prod.splits sum.splits)

lemma flash_dump_restores:
  "supercard_mode (bus (snd (flash_dump dev fopen_ok s0))) = Some 0 \<and>
   sysGetCartOwner (snd (flash_dump dev fopen_ok s0)) = sysGetCartOwner s0"
  by (simp add: flash_dump_def Let_def split: prod.splits)

lemma bus_read_frame [simp]:
  "exmemcnt (snd (bus_read dev idx s)) = exmemcnt s"
  "bus (snd (bus_read dev idx s)) = Rd idx (dev (bus s) idx) # bus s"
  "fst (bus_read dev idx s) = dev (bus s) idx"
  by (simp_all add: bus_read_def Let_def)

lemma slot2_read_bytes_frame:
  "exmemcnt (snd (slot2_read_bytes dev idx n s)) = exmemcnt s \<and>
   sd_mode_writes (bus (snd (slot2_read_bytes dev idx n s))) = sd_mode_writes (bus s) \<and>
   read_modes (bus (snd (slot2_read_bytes dev idx n s))) =
     replicate ((n + 1) div 2) (supercard_mode (bus s)) @ read_modes (bus s)"
proof (induction dev idx n s rule: slot2_read_bytes.induct)
  case (1 dev idx s)
  then show ?case by simp
next
  case (2 dev idx s)
  then show ?case by (simp add: split_def)
next
  case (3 dev idx n s)
  from 3 [OF refl prod.collapse]
  show ?case by (simp add: split_def Let_def replicate_append_same)
qed

lemma flash_validate_state:
  "sysGetCartOwner (snd (flash_validate dev fwimg fwsize s0)) \<and>
   supercard_mode (bus (snd (flash_validate dev fwimg fwsize s0))) = Some 4"
proof -
  let ?s = "set_supercard_mode MAPPED_FIRMWARE True False (sysSetCartOwner BUS_OWNER_ARM9 s0)"
  have e: "snd (flash_validate dev fwimg fwsize s0) = snd (slot2_read_bytes dev 0 fwsize ?s)"
    by (simp add: flash_validate_def Let_def split_def)
  have "sysGetCartOwner (snd (slot2_read_bytes dev 0 fwsize ?s)) = sysGetCartOwner ?s"
    by (simp add: owner_bit slot2_read_bytes_frame)
  moreover have "supercard_mode (bus (snd (slot2_read_bytes dev 0 fwsize ?s))) = supercard_mode (bus ?s)"
    by (simp add: supercard_mode_def slot2_read_bytes_frame)
  ultimately show ?thesis
    unfolding e by (simp add: BUS_OWNER_ARM9_def)
qed

lemma slot2_read_bytes_2:
  "slot2_read_bytes dev idx 2 s =
     (let (v, s) = bus_read dev idx s in ([ucast v, ucast (drop_bit 8 v)], s))"
  by (simp add: numeral_2_eq_2)

text \<open>
  Claim C1 asks of every flash operation that it leaves the cartridge mapped read-only
  and the bus with the owner it had on entry. \<open>flash_ident\<close>, \<open>flash_erase\<close>,
  \<open>flash_erase_check\<close>, \<open>flash_write\<close> and \<open>flash_dump\<close> do (the lemmas above).
  \<open>flash_validate\<close> does not: it returns before its two restoring calls. Run on a
  bus that the ARM7 owned, it leaves the bus with the ARM9 and the cartridge in
  mode 4, flash mapped with write access.
\<close>

theorem flash_validate_skips_restore:
  "(let s0 = \<lparr>exmemcnt = 0x80, bus = []\<rparr>;
        r = flash_validate (\<lambda>t idx. 0xFFFF) [0xFF, 0xFF] 2 s0
    in r = (True, \<lparr>exmemcnt = 0, bus = [Rd 0 0xFFFF, Wr REG_SD_MODE 4, Wr REG_SD_MODE 4,
                                         Wr REG_SD_MODE 0xA55A, Wr REG_SD_MODE 0xA55A]\<rparr>) \<and>
       \<not> sysGetCartOwner s0 \<and> sysGetCartOwner (snd r) \<and>
       supercard_mode (bus (snd r)) = Some 4 \<and> mode_write_access 4)"
proof -
  let ?s0 = "\<lparr>exmemcnt = 0x80, bus = []\<rparr>"
  have r: "flash_validate (\<lambda>t idx. 0xFFFF) [0xFF, 0xFF] 2 ?s0 =
      (True, \<lparr>exmemcnt = 0, bus = [Rd 0 0xFFFF, Wr REG_SD_MODE 4, Wr REG_SD_MODE 4,
                                         Wr REG_SD_MODE 0xA55A, Wr REG_SD_MODE 0xA55A]\<rparr>)"
    by (simp add: flash_validate_def Let_def slot2_read_bytes_2 bus_read_def set_supercard_mode_def
        bus_write_def sysSetCartOwner_def ARM7_OWNS_ROM_def BUS_OWNER_ARM9_def MAPPED_FIRMWARE_def
        MODESWITCH_MAGIC_def)
  have o: "\<not> sysGetCartOwner ?s0"
    by (simp add: sysGetCartOwner_def ARM7_OWNS_ROM_def)
  have w: "mode_write_access 4"
    by (simp add: mode_write_access_def)
  from flash_validate_state [of "\<lambda>t idx. 0xFFFF" "[0xFF, 0xFF]" 2 ?s0] r o w
  show ?thesis by (simp only: Let_def) simp
qed

subsection \<open>Reads made by the copy routines\<close>

lemma length_slot2_read_bytes: "length (fst (slot2_read_bytes dev idx n s)) = n"
proof (induction dev idx n s rule: slot2_read_bytes.induct)
  case (3 dev idx n s)
  from 3 [OF refl prod.collapse] show ?case
    by (simp add: split_def Let_def)
qed (simp_all add: split_def Let_def)

lemma read_modes_Wr4 [simp]: "read_modes (Wr a v # Wr b w # Wr c x # Wr d y # t) = read_modes t"
  by simp

lemma window_reads_shift:
  "window_reads dev base (Suc n) t = window_reads dev (Suc base) n (Rd base (dev t base) # t)"
  by (induction n) simp_all

lemma window_bytes_0 [simp]: "window_bytes dev base 0 t = []"
  by (simp add: window_bytes_def)

lemma window_bytes_1: "window_bytes dev base (Suc 0) t = [ucast (dev t base)]"
  by (simp add: window_bytes_def halfword_bytes_def)

lemma window_bytes_step:
  "window_bytes dev base (Suc (Suc n)) t =
     ucast (dev t base) # ucast (drop_bit 8 (dev t base)) #
     window_bytes dev (Suc base) n (Rd base (dev t base) # t)"
proof -
  have d: "(Suc (Suc n) + 1) div 2 = Suc ((n + 1) div 2)"
    by simp
  have u: "[0..<Suc m] = 0 # map Suc [0..<m]" for m
    by (simp only: upt_conv_Cons zero_less_Suc map_Suc_upt)
  show ?thesis
    unfolding window_bytes_def d u
    by (simp add: halfword_bytes_def o_def window_reads_shift del: window_reads.simps(2))
qed

lemma slot2_read_bytes_window:
  "slot2_read_bytes dev idx n s =
     (window_bytes dev idx n (bus s), s\<lparr>bus := window_reads dev idx ((n + 1) div 2) (bus s)\<rparr>)"
proof (induction dev idx n s rule: slot2_read_bytes.induct)
  case (1 dev idx s)
  show ?case by simp
next
  case (2 dev idx s)
  show ?case by (simp add: bus_read_def Let_def window_bytes_1)
next
  case (3 dev idx n s)
  let ?v = "dev (bus s) idx"
  let ?s1 = "s\<lparr>bus := Rd idx ?v # bus s\<rparr>"
  have b: "bus_read dev idx s = (?v, ?s1)"
    by (simp add: bus_read_def Let_def)
  from 3 [OF b [symmetric] refl]
  have ih: "slot2_read_bytes dev (idx + 1) n ?s1 =
      (window_bytes dev (idx + 1) n (bus ?s1),
       ?s1\<lparr>bus := window_reads dev (idx + 1) ((n + 1) div 2) (bus ?s1)\<rparr>)"
    .
  have d: "(Suc (Suc n) + 1) div 2 = Suc ((n + 1) div 2)"
    by simp
  show ?case
    unfolding d window_reads_shift window_bytes_step
    using ih by (simp add: b)
qed

lemma length_window_bytes: "length (window_bytes dev base size' t) = size'"
  using length_slot2_read_bytes [of dev base size' "\<lparr>exmemcnt = 0, bus = t\<rparr>"]
  by (simp add: slot2_read_bytes_window)

lemma reads_of_window_reads:
  "reads_of (window_reads dev base n t) =
     rev (map (\<lambda>j. (base + j, dev (window_reads dev base j t) (base + j))) [0..<n]) @ reads_of t"
  by (induction n) simp_all

lemma read_modes_window_reads:
  "read_modes (window_reads dev base n t) = replicate n (supercard_mode t) @ read_modes t"
proof (induction n)
  case 0
  show ?case by simp
next
  case (Suc n)
  have "supercard_mode (window_reads dev base n t) = supercard_mode t"
    by (induction n) simp_all
  with Suc show ?case by simp
qed

lemma window_bytes_mem:
  "window_bytes (\<lambda>t. mem) base size' t =
     take size' (concat (map (\<lambda>j. halfword_bytes (mem (base + j))) [0..<(size' + 1) div 2]))"
  by (simp add: window_bytes_def)

text \<open>
  Claim C5, as the code has it. \<open>flash_validate\<close> and \<open>flash_dump\<close> map the
  internal flash with write access enabled (mode value 4, the SD card interface not
  mapped) and then copy from the base of the window: the halfwords
  \<open>0, 1, 2, \<dots>\<close> are read in this order, \<open>(fwsize + 1) div 2\<close> of them for the
  comparison and \<open>262144\<close> for the dump, every one of them in mode 4. The bytes of
  the copy are the first \<open>size\<close> bytes of what these reads returned, low byte first;
  on a cartridge that answers every read from a memory \<open>mem\<close> they are the first
  \<open>size\<close> bytes of \<open>mem\<close>. \<open>flash_validate\<close> returns whether the image equals
  the copy and leaves the state as the copy left it; \<open>flash_dump\<close> hands the
  \<open>512 * 1024\<close> bytes of the copy to the file, after mapping the flash read-only and
  giving the bus back.
\<close>

theorem readback_mode:
  "snd (flash_validate dev fwimg fwsize s0) =
     (readback_entry s0)\<lparr>bus := window_reads dev 0 ((fwsize + 1) div 2) (bus (readback_entry s0))\<rparr> \<and>
   fst (flash_validate dev fwimg fwsize s0) =
     (take fwsize fwimg = window_bytes dev 0 fwsize (bus (readback_entry s0))) \<and>
   flash_dump dev fopen_ok s0 =
     ((fopen_ok,
       if fopen_ok then Some (window_bytes dev 0 (512 * 1024) (bus (readback_entry s0))) else None),
      flash_leave s0 ((readback_entry s0)\<lparr>bus :=
        window_reads dev 0 (512 * 1024 div 2) (bus (readback_entry s0))\<rparr>)) \<and>
   supercard_mode (bus (readback_entry s0)) = Some 4 \<and>
   read_modes (window_reads dev 0 n (bus (readback_entry s0))) =
     replicate n (Some 4) @ read_modes (bus s0) \<and>
   reads_of (window_reads dev 0 n t) =
     rev (map (\<lambda>j. (j, dev (window_reads dev 0 j t) j)) [0..<n]) @ reads_of t \<and>
   length (window_bytes dev 0 size' t) = size' \<and>
   window_bytes (\<lambda>t. mem) 0 size' t =
     take size' (concat (map (\<lambda>j. halfword_bytes (mem j)) [0..<(size' + 1) div 2])) \<and>
   read_modes (bus (snd (flash_validate dev fwimg fwsize s0))) =
     replicate ((fwsize + 1) div 2) (Some 4) @ read_modes (bus s0) \<and>
   read_modes (bus (snd (flash_dump dev fopen_ok s0))) =
     replicate (512 * 1024 div 2) (Some 4) @ read_modes (bus s0) \<and>
   (\<exists>data. fst (flash_dump dev True s0) = (True, Some data) \<and> length data = 512 * 1024) \<and>
   \<not> mode_sdram 4 \<and> \<not> mode_sdcard 4 \<and> mode_write_access 4"
proof -
  let ?s = "set_supercard_mode MAPPED_FIRMWARE True False (sysSetCartOwner BUS_OWNER_ARM9 s0)"
  have m: "supercard_mode (bus ?s) = Some 4"
    by simp
  have r: "read_modes (bus ?s) = read_modes (bus s0)"
    by (simp add: bus_set_supercard_mode Let_def)
  have a: "snd (flash_validate dev fwimg fwsize s0) =
     (readback_entry s0)\<lparr>bus := window_reads dev 0 ((fwsize + 1) div 2) (bus (readback_entry s0))\<rparr>"
    by (simp add: flash_validate_def Let_def slot2_read_bytes_window readback_entry_def)
  have b: "fst (flash_validate dev fwimg fwsize s0) =
     (take fwsize fwimg = window_bytes dev 0 fwsize (bus (readback_entry s0)))"
    by (simp add: flash_validate_def Let_def slot2_read_bytes_window readback_entry_def)
  have c: "flash_dump dev fopen_ok s0 =
     ((fopen_ok,
       if fopen_ok then Some (window_bytes dev 0 (512 * 1024) (bus (readback_entry s0))) else None),
      flash_leave s0 ((readback_entry s0)\<lparr>bus :=
        window_reads dev 0 (512 * 1024 div 2) (bus (readback_entry s0))\<rparr>))"
    by (simp add: flash_dump_def Let_def slot2_read_bytes_window readback_entry_def flash_leave_def)
  have d: "supercard_mode (bus (readback_entry s0)) = Some 4"
    using m by (simp only: readback_entry_def)
  have e: "read_modes (window_reads dev 0 n (bus (readback_entry s0))) =
     replicate n (Some 4) @ read_modes (bus s0)"
    using r by (simp only: read_modes_window_reads d) (simp only: readback_entry_def)
  have f: "reads_of (window_reads dev 0 n t) =
     rev (map (\<lambda>j. (j, dev (window_reads dev 0 j t) j)) [0..<n]) @ reads_of t"
    using reads_of_window_reads [of dev 0 n t] by simp
  have g: "length (window_bytes dev 0 size' t) = size'"
    by (rule length_window_bytes)
  have h: "window_bytes (\<lambda>t. mem) 0 size' t =
     take size' (concat (map (\<lambda>j. halfword_bytes (mem j)) [0..<(size' + 1) div 2]))"
    using window_bytes_mem [of mem 0 size' t] by simp
  have 1: "read_modes (bus (snd (flash_validate dev fwimg fwsize s0))) =
     replicate ((fwsize + 1) div 2) (Some 4) @ read_modes (bus s0)"
    using slot2_read_bytes_frame [of dev 0 fwsize ?s] m r
    by (simp add: flash_validate_def Let_def split_def)
  have 2: "read_modes (bus (snd (flash_dump dev fopen_ok s0))) =
     replicate (512 * 1024 div 2) (Some 4) @ read_modes (bus s0)"
    using slot2_read_bytes_frame [of dev 0 "512 * 1024" ?s] m r
    by (simp add: flash_dump_def Let_def split_def bus_set_supercard_mode)
  have 3: "\<exists>data. fst (flash_dump dev True s0) = (True, Some data) \<and> length data = 512 * 1024"
    using length_slot2_read_bytes [of dev 0 "512 * 1024" ?s]
    by (simp add: flash_dump_def Let_def split_def)
  have 4: "\<not> mode_sdram 4" "\<not> mode_sdcard 4" "mode_write_access 4"
    by (simp_all add: mode_sdram_def mode_sdcard_def mode_write_access_def)
  show ?thesis
    by (intro conjI) (fact a b c d e f g h 1 2 3 4)+
qed

text \<open>
  Claim C5 as the specification words it has the device mapped read-only during the
  copy. On a two-byte comparison the one read that \<open>flash_validate\<close> makes happens in
  mode 4, whose write access bit is set, not in the read-only mode 0.
\<close>

theorem readback_mode_counterexample:
  "read_modes (bus (snd (flash_validate steady_cart [0xFF, 0xFF] 2 \<lparr>exmemcnt = 0, bus = []\<rparr>)))
     = [Some 4] \<and> mode_write_access 4 \<and> \<not> mode_write_access 0"
  by (simp add: flash_validate_def Let_def slot2_read_bytes_2 bus_read_def set_supercard_mode_def
      bus_write_def sysSetCartOwner_def supercard_mode_def mode_write_access_def steady_cart_def
      MAPPED_FIRMWARE_def)

subsection \<open>The wait loop of flash_erase\<close>

lemma reset_cycles_frame [simp]:
  "bus (reset_cycles n s) = replicate n (Wr 0 0x00F0) @ bus s"
  "exmemcnt (reset_cycles n s) = exmemcnt s"
  by (induction n arbitrary: s) (simp_all add: bus_write_def replicate_app_Cons_same)

lemma erase_wait_step:
  "erase_wait dev i s =
     (if i < 60 * 1000 then
        (if status_stable dev (bus s) then s\<lparr>bus := poll_once dev (bus s)\<rparr>
         else erase_wait dev (i + 1) (s\<lparr>bus := poll_once dev (bus s)\<rparr>))
      else s)"
  by (subst erase_wait.simps) (simp add: bus_read_def Let_def status_stable_def poll_once_def)

lemma erase_wait_trace:
  "\<exists>m. m \<le> 60 * 1000 - i \<and> erase_wait dev i s = s\<lparr>bus := (poll_once dev ^^ m) (bus s)\<rparr>"
proof (induction "60 * 1000 - i" arbitrary: i s)
  case 0
  then have "erase_wait dev i s = s\<lparr>bus := (poll_once dev ^^ 0) (bus s)\<rparr>"
    by (subst erase_wait_step) simp
  then show ?case by blast
next
  case (Suc n)
  then have lt: "i < 60 * 1000" by simp
  let ?s2 = "s\<lparr>bus := poll_once dev (bus s)\<rparr>"
  show ?case
  proof (cases "status_stable dev (bus s)")
    case True
    with lt have "erase_wait dev i s = s\<lparr>bus := (poll_once dev ^^ 1) (bus s)\<rparr>"
      by (subst erase_wait_step) simp
    moreover from lt have "(1::nat) \<le> 60 * 1000 - i" by simp
    ultimately show ?thesis by blast
  next
    case False
    from Suc have "n = 60 * 1000 - (i + 1)" by simp
    from Suc.hyps(1) [OF this, of ?s2] obtain m where
      m: "m \<le> 60 * 1000 - (i + 1)" "erase_wait dev (i + 1) ?s2 = ?s2\<lparr>bus := (poll_once dev ^^ m) (bus ?s2)\<rparr>"
      by blast
    from lt False m(2) have "erase_wait dev i s = s\<lparr>bus := (poll_once dev ^^ Suc m) (bus s)\<rparr>"
      by (subst erase_wait_step) (simp add: funpow_swap1)
    moreover from m(1) lt have "Suc m \<le> 60 * 1000 - i" by simp
    ultimately show ?thesis by blast
  qed
qed

lemma erase_wait_exhaust:
  "(\<And>k. k < 60 * 1000 - i \<Longrightarrow> \<not> status_stable dev ((poll_once dev ^^ k) (bus s))) \<Longrightarrow>
   erase_wait dev i s = s\<lparr>bus := (poll_once dev ^^ (60 * 1000 - i)) (bus s)\<rparr>"
proof (induction "60 * 1000 - i" arbitrary: i s)
  case 0
  then show ?case by (subst erase_wait_step) simp
next
  case (Suc n)
  then have lt: "i < 60 * 1000" by simp
  let ?s2 = "s\<lparr>bus := poll_once dev (bus s)\<rparr>"
  from Suc.prems [of 0] lt have ns: "\<not> status_stable dev (bus s)" by simp
  have n: "n = 60 * 1000 - (i + 1)" using Suc by simp
  have "erase_wait dev (i + 1) ?s2 = ?s2\<lparr>bus := (poll_once dev ^^ (60 * 1000 - (i + 1))) (bus ?s2)\<rparr>"
  proof (rule Suc.hyps(1) [OF n])
    fix k assume "k < 60 * 1000 - (i + 1)"
    then have "Suc k < 60 * 1000 - i" by simp
    from Suc.prems [OF this] show "\<not> status_stable dev ((poll_once dev ^^ k) (bus ?s2))"
      by (simp add: funpow_swap1)
  qed
  moreover have "60 * 1000 - i = Suc (60 * 1000 - (i + 1))" using lt by simp
  then have "(poll_once dev ^^ (60 * 1000 - i)) (bus s) =
      (poll_once dev ^^ (60 * 1000 - (i + 1))) (poll_once dev (bus s))"
    by (simp only: funpow_Suc_right o_apply)
  ultimately show ?case
    using lt ns by (subst erase_wait_step) simp
qed

subsection \<open>Polling rounds\<close>

lemma poll_rounds_le: "poll_rounds dev n t \<le> n"
  by (induction n arbitrary: t) simp_all

lemma poll_rounds_pos: "0 < n \<Longrightarrow> 0 < poll_rounds dev n t"
  by (cases n) simp_all

lemma poll_rounds_before:
  "Suc k < poll_rounds dev n t \<Longrightarrow> \<not> status_stable dev ((poll_once dev ^^ k) t)"
proof (induction n arbitrary: k t)
  case 0
  then show ?case by simp
next
  case (Suc n)
  show ?case
  proof (cases "status_stable dev t")
    case True
    with Suc.prems show ?thesis by simp
  next
    case False
    with Suc.prems have lt: "k < poll_rounds dev n (poll_once dev t)"
      by simp
    show ?thesis
    proof (cases k)
      case 0
      with False show ?thesis by simp
    next
      case (Suc k')
      with lt have "Suc k' < poll_rounds dev n (poll_once dev t)"
        by simp
      from Suc.IH [OF this] Suc show ?thesis
        by (simp add: funpow_swap1)
    qed
  qed
qed

lemma poll_rounds_last:
  "poll_rounds dev n t < n \<Longrightarrow>
   status_stable dev ((poll_once dev ^^ (poll_rounds dev n t - 1)) t)"
proof (induction n arbitrary: t)
  case 0
  then show ?case by simp
next
  case (Suc n)
  show ?case
  proof (cases "status_stable dev t")
    case True
    then show ?thesis by simp
  next
    case False
    with Suc.prems have lt: "poll_rounds dev n (poll_once dev t) < n"
      by simp
    then have "0 < n"
      by simp
    then have "0 < poll_rounds dev n (poll_once dev t)"
      by (rule poll_rounds_pos)
    then obtain m where m: "poll_rounds dev n (poll_once dev t) = Suc m"
      by (cases "poll_rounds dev n (poll_once dev t)") simp_all
    from Suc.IH [OF lt] False m show ?thesis
      by (simp add: funpow_swap1)
  qed
qed

lemma poll_rounds_exhaust:
  "(\<And>k. k < n \<Longrightarrow> \<not> status_stable dev ((poll_once dev ^^ k) t)) \<Longrightarrow> poll_rounds dev n t = n"
proof (induction n arbitrary: t)
  case 0
  then show ?case by simp
next
  case (Suc n)
  from Suc.prems [of 0] have ns: "\<not> status_stable dev t"
    by simp
  have "poll_rounds dev n (poll_once dev t) = n"
  proof (rule Suc.IH)
    fix k assume "k < n"
    then have "Suc k < Suc n" by simp
    from Suc.prems [OF this] show "\<not> status_stable dev ((poll_once dev ^^ k) (poll_once dev t))"
      by (simp add: funpow_swap1)
  qed
  with ns show ?case by simp
qed

lemma erase_wait_rounds:
  "erase_wait dev i s =
     s\<lparr>bus := (poll_once dev ^^ poll_rounds dev (60 * 1000 - i) (bus s)) (bus s)\<rparr>"
proof (induction "60 * 1000 - i" arbitrary: i s)
  case 0
  then show ?case
    by (subst erase_wait_step) simp
next
  case (Suc n)
  then have lt: "i < 60 * 1000" and d: "60 * 1000 - i = Suc n" and n: "n = 60 * 1000 - (i + 1)"
    by simp_all
  let ?s2 = "s\<lparr>bus := poll_once dev (bus s)\<rparr>"
  show ?case
  proof (cases "status_stable dev (bus s)")
    case True
    with lt d show ?thesis
      by (subst erase_wait_step) simp
  next
    case False
    from Suc.hyps(1) [OF n, of ?s2]
    have "erase_wait dev (i + 1) ?s2 =
        s\<lparr>bus := (poll_once dev ^^ poll_rounds dev n (poll_once dev (bus s))) (poll_once dev (bus s))\<rparr>"
      by (simp add: n)
    with lt False d show ?thesis
      by (subst erase_wait_step) (simp add: funpow_swap1)
  qed
qed

lemma flash_erase_unfold:
  "flash_erase dev s0 =
     (let sw = erase_wait dev 0 (erase_issued s0)
      in (status_stable dev (bus sw),
          flash_leave s0 (reset_cycles 32 (sw\<lparr>bus := poll_once dev (bus sw)\<rparr>))))"
  by (simp add: flash_erase_def erase_issued_def flash_leave_def Let_def bus_read_def
      status_stable_def poll_once_def)


lemma reads_of_Wrs [simp]: "reads_of (replicate n (Wr a v) @ t) = reads_of t"
  by (induction n) simp_all

lemma reads_of_erase_issued [simp]: "reads_of (bus (erase_issued s0)) = reads_of (bus s0)"
  by (simp add: erase_issued_def Let_def bus_write_def bus_set_supercard_mode)

lemma reads_of_poll_once [simp]:
  "reads_of (poll_once dev t) = (0, dev (Rd 0 (dev t 0) # t) 0) # (0, dev t 0) # reads_of t"
  by (simp add: poll_once_def)

lemma bus_flash_leave:
  "bus (flash_leave s0 s) =
     Wr REG_SD_MODE 0 # Wr REG_SD_MODE 0 # Wr REG_SD_MODE MODESWITCH_MAGIC #
     Wr REG_SD_MODE MODESWITCH_MAGIC # bus s"
  by (simp add: flash_leave_def bus_set_supercard_mode MAPPED_FIRMWARE_def)

lemma u16_succ_neq: "(of_nat n :: u16) \<noteq> of_nat (Suc n)"
  by simp

lemma toggling_never_stable: "\<not> status_stable toggling_cart t"
  by (simp add: status_stable_def toggling_cart_def)

lemma steady_always_stable: "status_stable steady_cart t"
  by (simp add: status_stable_def steady_cart_def)

text \<open>
  Claim C7, as the code has it. \<open>flash_erase\<close> polls in rounds of two reads of the
  status location. It makes \<open>m\<close> rounds, at least one and at most \<open>60000\<close>: in no
  round before the last do the two reads agree, and unless all \<open>60000\<close> rounds were
  made they agree in the last one. It then reads the status location twice more,
  and returns success exactly when these last two reads agree. It always
  terminates. On a cartridge whose consecutive reads never agree it uses up the
  budget and returns failure, and on one whose reads always agree it makes a single
  round and returns success.
\<close>

theorem flash_erase_outcome:
  "(let t0 = bus (erase_issued s0); m = poll_rounds dev (60 * 1000) t0
    in 0 < m \<and> m \<le> 60 * 1000 \<and>
       (\<forall>k. Suc k < m \<longrightarrow> \<not> status_stable dev ((poll_once dev ^^ k) t0)) \<and>
       (m < 60 * 1000 \<longrightarrow> status_stable dev ((poll_once dev ^^ (m - 1)) t0)) \<and>
       fst (flash_erase dev s0) = status_stable dev ((poll_once dev ^^ m) t0) \<and>
       bus (snd (flash_erase dev s0)) =
         Wr REG_SD_MODE 0 # Wr REG_SD_MODE 0 # Wr REG_SD_MODE MODESWITCH_MAGIC #
         Wr REG_SD_MODE MODESWITCH_MAGIC # replicate 32 (Wr 0 0x00F0) @
         (poll_once dev ^^ Suc m) t0) \<and>
   ((\<forall>t. \<not> status_stable dev t) \<longrightarrow>
      \<not> fst (flash_erase dev s0) \<and>
      poll_rounds dev (60 * 1000) (bus (erase_issued s0)) = 60 * 1000) \<and>
   ((\<forall>t. status_stable dev t) \<longrightarrow>
      fst (flash_erase dev s0) \<and> poll_rounds dev (60 * 1000) (bus (erase_issued s0)) = 1)"
proof -
  let ?t0 = "bus (erase_issued s0)"
  let ?m = "poll_rounds dev (60 * 1000) ?t0"
  have w: "erase_wait dev 0 (erase_issued s0) =
      (erase_issued s0)\<lparr>bus := (poll_once dev ^^ ?m) ?t0\<rparr>"
    using erase_wait_rounds [of dev 0 "erase_issued s0"] by simp
  have p: "0 < ?m"
    by (rule poll_rounds_pos) simp
  have l: "?m \<le> 60 * 1000"
    by (rule poll_rounds_le)
  have b: "\<forall>k. Suc k < ?m \<longrightarrow> \<not> status_stable dev ((poll_once dev ^^ k) ?t0)"
    using poll_rounds_before [of _ dev "60 * 1000" ?t0] by blast
  have e: "?m < 60 * 1000 \<longrightarrow> status_stable dev ((poll_once dev ^^ (?m - 1)) ?t0)"
    using poll_rounds_last [of dev "60 * 1000" ?t0] by blast
  have f: "fst (flash_erase dev s0) = status_stable dev ((poll_once dev ^^ ?m) ?t0)"
    by (simp add: flash_erase_unfold Let_def w)
  have t: "bus (snd (flash_erase dev s0)) =
      Wr REG_SD_MODE 0 # Wr REG_SD_MODE 0 # Wr REG_SD_MODE MODESWITCH_MAGIC #
      Wr REG_SD_MODE MODESWITCH_MAGIC # replicate 32 (Wr 0 0x00F0) @
      (poll_once dev ^^ Suc ?m) ?t0"
    by (simp add: flash_erase_unfold Let_def w bus_flash_leave)
  have n: "(\<forall>t. \<not> status_stable dev t) \<longrightarrow> \<not> fst (flash_erase dev s0) \<and> ?m = 60 * 1000"
    using f poll_rounds_exhaust [of "60 * 1000" dev ?t0] by blast
  have a: "(\<forall>t. status_stable dev t) \<longrightarrow> fst (flash_erase dev s0) \<and> ?m = 1"
  proof
    assume st: "\<forall>t. status_stable dev t"
    have "60 * 1000 = Suc (60 * 1000 - 1)"
      by simp
    then have "?m = poll_rounds dev (Suc (60 * 1000 - 1)) ?t0"
      by (simp only:)
    also have "\<dots> = 1"
      using st by (simp only: poll_rounds.simps) simp
    finally show "fst (flash_erase dev s0) \<and> ?m = 1"
      using f st by blast
  qed
  from p l b e f t n a show ?thesis
    by (simp only: Let_def)
qed

theorem flash_erase_outcome_witness:
  "(\<forall>t. \<not> status_stable toggling_cart t) \<and>
   \<not> fst (flash_erase toggling_cart \<lparr>exmemcnt = 0x80, bus = []\<rparr>) \<and>
   poll_rounds toggling_cart (60 * 1000) (bus (erase_issued \<lparr>exmemcnt = 0x80, bus = []\<rparr>)) =
     60 * 1000 \<and>
   (\<forall>t. status_stable steady_cart t) \<and>
   fst (flash_erase steady_cart \<lparr>exmemcnt = 0x80, bus = []\<rparr>) \<and>
   poll_rounds steady_cart (60 * 1000) (bus (erase_issued \<lparr>exmemcnt = 0x80, bus = []\<rparr>)) = 1"
  using flash_erase_outcome [of "\<lparr>exmemcnt = 0x80, bus = []\<rparr>" toggling_cart]
    flash_erase_outcome [of "\<lparr>exmemcnt = 0x80, bus = []\<rparr>" steady_cart]
    toggling_never_stable steady_always_stable
  by blast

subsection \<open>Two cartridges on which the budget and the result part ways\<close>

lemma late_cart_early:
  "length (reads_of t) < 2 * (60 * 1000) \<Longrightarrow> late_cart t idx = of_nat (length (reads_of t))"
  by (simp add: late_cart_def)

lemma late_cart_late:
  "2 * (60 * 1000) \<le> length (reads_of t) \<Longrightarrow> late_cart t idx = 0"
  by (simp add: late_cart_def)

lemma late_cart_reads:
  "reads_of t = [] \<Longrightarrow> k \<le> 60 * 1000 \<Longrightarrow>
   reads_of ((poll_once late_cart ^^ k) t) = rev (map (\<lambda>n. (0, of_nat n)) [0..<2 * k])"
proof (induction k)
  case 0
  then show ?case by simp
next
  case (Suc k)
  then have r: "reads_of ((poll_once late_cart ^^ k) t) = rev (map (\<lambda>n. (0, of_nat n)) [0..<2 * k])"
    and k: "k < 60 * 1000"
    by simp_all
  let ?t = "(poll_once late_cart ^^ k) t"
  from k r have 1: "late_cart ?t 0 = of_nat (2 * k)"
    by (subst late_cart_early) simp_all
  from k r have 2: "late_cart (Rd 0 (of_nat (2 * k)) # ?t) 0 = of_nat (Suc (2 * k))"
    by (subst late_cart_early) simp_all
  show ?case
    by (simp only: funpow.simps o_apply reads_of_poll_once 1 2 r) simp
qed

lemma late_cart_unstable:
  assumes "reads_of t = []" "k < 60 * 1000"
  shows "\<not> status_stable late_cart ((poll_once late_cart ^^ k) t)"
proof -
  from assms have r: "length (reads_of ((poll_once late_cart ^^ k) t)) = 2 * k"
    by (simp add: late_cart_reads)
  let ?t = "(poll_once late_cart ^^ k) t"
  from assms(2) r have 1: "late_cart ?t 0 = of_nat (2 * k)"
    by (subst late_cart_early) simp_all
  from assms(2) r have 2: "late_cart (Rd 0 (of_nat (2 * k)) # ?t) 0 = of_nat (Suc (2 * k))"
    by (subst late_cart_early) simp_all
  show ?thesis
    unfolding status_stable_def 1 2 by (rule u16_succ_neq)
qed

lemma late_cart_stable:
  assumes "reads_of t = []"
  shows "status_stable late_cart ((poll_once late_cart ^^ (60 * 1000)) t)"
proof -
  from assms have r: "length (reads_of ((poll_once late_cart ^^ (60 * 1000)) t)) = 2 * (60 * 1000)"
    by (simp add: late_cart_reads)
  let ?t = "(poll_once late_cart ^^ (60 * 1000)) t"
  from r have 1: "late_cart ?t 0 = 0"
    by (subst late_cart_late) simp_all
  from r have 2: "late_cart (Rd 0 0 # ?t) 0 = 0"
    by (subst late_cart_late) simp_all
  show ?thesis
    unfolding status_stable_def 1 2 by simp
qed


lemma relapsing_cart_apply:
  "relapsing_cart t idx = (if length (reads_of t) = 3 then 1 else 0)"
  by (simp add: relapsing_cart_def)

text \<open>
  Claim C7 as the specification words it has \<open>flash_erase\<close> fail exactly when the
  budget runs out before two consecutive reads agree. Two cartridges show that the
  result follows the closing pair of reads instead. The first toggles through all
  \<open>60000\<close> rounds (reads \<open>0, 1, 2, \<dots>\<close>, no round with two equal reads) and is quiet
  from then on: the budget is exhausted and the erase is reported as a success. The
  second answers the first round with two equal reads and the closing pair with two
  different ones: a failure is reported after a single round.
\<close>

theorem flash_erase_budget_counterexample:
  "fst (flash_erase late_cart \<lparr>exmemcnt = 0x80, bus = []\<rparr>) \<and>
   reads_of (bus (snd (flash_erase late_cart \<lparr>exmemcnt = 0x80, bus = []\<rparr>))) =
     (0, 0) # (0, 0) # rev (map (\<lambda>n. (0, of_nat n)) [0..<2 * (60 * 1000)]) \<and>
   \<not> fst (flash_erase relapsing_cart \<lparr>exmemcnt = 0x80, bus = []\<rparr>) \<and>
   reads_of (bus (snd (flash_erase relapsing_cart \<lparr>exmemcnt = 0x80, bus = []\<rparr>))) =
     [(0, 1), (0, 0), (0, 0), (0, 0)]"
proof -
  let ?s0 = "\<lparr>exmemcnt = 0x80, bus = []\<rparr>"
  let ?t0 = "bus (erase_issued ?s0)"
  have r0: "reads_of ?t0 = []"
    by simp
  \<comment> \<open>the late cartridge\<close>
  let ?tw = "(poll_once late_cart ^^ (60 * 1000)) ?t0"
  have w: "erase_wait late_cart 0 (erase_issued ?s0) = (erase_issued ?s0)\<lparr>bus := ?tw\<rparr>"
    using erase_wait_exhaust [of 0 late_cart "erase_issued ?s0"] late_cart_unstable [OF r0]
    by simp
  have rw: "reads_of ?tw = rev (map (\<lambda>n. (0, of_nat n)) [0..<2 * (60 * 1000)])"
    using late_cart_reads [OF r0, of "60 * 1000"] by simp
  then have lw: "length (reads_of ?tw) = 2 * (60 * 1000)"
    by simp
  have v1: "late_cart ?tw 0 = 0"
    using lw by (subst late_cart_late) simp_all
  have v2: "late_cart (Rd 0 0 # ?tw) 0 = 0"
    using lw by (subst late_cart_late) simp_all
  have 1: "fst (flash_erase late_cart ?s0)"
    using late_cart_stable [OF r0] by (simp add: flash_erase_unfold Let_def w)
  have 2: "reads_of (bus (snd (flash_erase late_cart ?s0))) =
     (0, 0) # (0, 0) # rev (map (\<lambda>n. (0, of_nat n)) [0..<2 * (60 * 1000)])"
  proof -
    have "bus (snd (flash_erase late_cart ?s0)) =
        Wr REG_SD_MODE 0 # Wr REG_SD_MODE 0 # Wr REG_SD_MODE MODESWITCH_MAGIC #
        Wr REG_SD_MODE MODESWITCH_MAGIC # replicate 32 (Wr 0 0x00F0) @ poll_once late_cart ?tw"
      by (simp add: flash_erase_unfold Let_def w bus_flash_leave)
    then show ?thesis
      by (simp only: reads_of.simps reads_of_Wrs reads_of_poll_once v1 v2 rw)
  qed
  \<comment> \<open>the relapsing cartridge\<close>
  have s0: "status_stable relapsing_cart ?t0"
    by (simp add: status_stable_def relapsing_cart_apply r0)
  have w': "erase_wait relapsing_cart 0 (erase_issued ?s0) =
      (erase_issued ?s0)\<lparr>bus := poll_once relapsing_cart ?t0\<rparr>"
    using s0 by (subst erase_wait_step) simp
  have 3: "\<not> fst (flash_erase relapsing_cart ?s0)"
    by (simp add: flash_erase_unfold Let_def w' status_stable_def relapsing_cart_apply r0)
  have 4: "reads_of (bus (snd (flash_erase relapsing_cart ?s0))) = [(0, 1), (0, 0), (0, 0), (0, 0)]"
    by (simp add: flash_erase_unfold Let_def w' bus_flash_leave relapsing_cart_apply r0)
  from 1 2 3 4 show ?thesis by blast
qed

subsection \<open>The scan of flash_erase_check\<close>

lemma erase_check_loop_step:
  "erase_check_loop dev i errf s =
     (if i < 512 * 1024 then
        (if dev (bus s) (i div 2) \<noteq> 0xFFFF
         then (True, s\<lparr>bus := Rd (i div 2) (dev (bus s) (i div 2)) # bus s\<rparr>)
         else erase_check_loop dev (i + 2) False
                (s\<lparr>bus := Rd (i div 2) (dev (bus s) (i div 2)) # bus s\<rparr>))
      else (errf, s))"
  by (subst erase_check_loop.simps) (simp add: bus_read_def Let_def)

text \<open>
  On a cartridge in read mode, whose halfword \<open>j\<close> reads \<open>mem j\<close> whatever went
  before: started at word \<open>k\<close>, the scan reads words \<open>k, k + 1, \<dots>\<close> in order and
  stops behind the first one that is not \<open>0xFFFF\<close>, or at the end of the range.
\<close>

lemma erase_check_loop_scan:
  assumes "k \<le> 256 * 1024"
  shows "\<exists>n. k \<le> n \<and> n \<le> 256 * 1024 \<and>
           (\<forall>j. k \<le> j \<and> j + 1 < n \<longrightarrow> mem j = 0xFFFF) \<and>
           (n < 256 * 1024 \<longrightarrow> k < n \<and> mem (n - 1) \<noteq> 0xFFFF) \<and>
           erase_check_loop (\<lambda>t. mem) (2 * k) errf s =
             (if k < n then mem (n - 1) \<noteq> 0xFFFF else errf,
              s\<lparr>bus := rev (map (\<lambda>j. Rd j (mem j)) [k..<n]) @ bus s\<rparr>)"
  using assms
proof (induction "256 * 1024 - k" arbitrary: k errf s)
  case 0
  then have k: "k = 256 * 1024" by simp
  have "erase_check_loop (\<lambda>t. mem) (2 * k) errf s = (errf, s)"
    by (subst erase_check_loop_step) (simp add: k)
  then show ?case
    by (intro exI [of _ k]) (auto simp add: k)
next
  case (Suc m)
  then have lt: "k < 256 * 1024" by simp
  let ?s1 = "s\<lparr>bus := Rd k (mem k) # bus s\<rparr>"
  show ?case
  proof (cases "mem k = 0xFFFF")
    case False
    with lt have "erase_check_loop (\<lambda>t. mem) (2 * k) errf s = (True, ?s1)"
      by (subst erase_check_loop_step) simp
    with False lt show ?thesis
      by (intro exI [of _ "Suc k"]) auto
  next
    case True
    from Suc have m: "m = 256 * 1024 - Suc k" and le: "Suc k \<le> 256 * 1024" by simp_all
    from Suc.hyps(1) [OF m le, of False ?s1] obtain n where
      n: "Suc k \<le> n" "n \<le> 256 * 1024"
         "\<forall>j. Suc k \<le> j \<and> j + 1 < n \<longrightarrow> mem j = 0xFFFF"
         "n < 256 * 1024 \<longrightarrow> Suc k < n \<and> mem (n - 1) \<noteq> 0xFFFF"
         "erase_check_loop (\<lambda>t. mem) (2 * Suc k) False ?s1 =
            (if Suc k < n then mem (n - 1) \<noteq> 0xFFFF else False,
             ?s1\<lparr>bus := rev (map (\<lambda>j. Rd j (mem j)) [Suc k..<n]) @ bus ?s1\<rparr>)"
      by blast
    have a: "\<forall>j. k \<le> j \<and> j + 1 < n \<longrightarrow> mem j = 0xFFFF"
    proof (intro allI impI)
      fix j assume j: "k \<le> j \<and> j + 1 < n"
      show "mem j = 0xFFFF"
      proof (cases "j = k")
        case True then show ?thesis using \<open>mem k = 0xFFFF\<close> by simp
      next
        case False with j n(3) show ?thesis by simp
      qed
    qed
    have u: "[k..<n] = k # [Suc k..<n]"
      using n(1) by (simp add: upt_conv_Cons)
    have f: "(if Suc k < n then mem (n - 1) \<noteq> 0xFFFF else False) = (mem (n - 1) \<noteq> 0xFFFF)"
    proof (cases "Suc k < n")
      case True then show ?thesis by simp
    next
      case False
      with n(1) have "n = Suc k" by simp
      with True show ?thesis by simp
    qed
    from lt True n(5) have "erase_check_loop (\<lambda>t. mem) (2 * k) errf s =
        (if k < n then mem (n - 1) \<noteq> 0xFFFF else errf,
         s\<lparr>bus := rev (map (\<lambda>j. Rd j (mem j)) [k..<n]) @ bus s\<rparr>)"
      using n(1) by (subst erase_check_loop_step) (simp add: u f)
    with n(1,2,4) a show ?thesis
      by (intro exI [of _ n]) auto
  qed
qed


lemma reads_of_append: "reads_of (t @ u) = reads_of t @ reads_of u"
  by (induction t rule: reads_of.induct) simp_all

lemma reads_of_rev_Rds:
  "reads_of (rev (map (\<lambda>j. Rd j (f j)) js)) = rev (map (\<lambda>j. (j, f j)) js)"
  by (induction js) (simp_all add: reads_of_append)

lemma flash_erase_check_unfold:
  "flash_erase_check dev s0 =
     (let s = set_supercard_mode MAPPED_FIRMWARE True False (sysSetCartOwner BUS_OWNER_ARM9 s0);
          r = erase_check_loop dev 0 False (s\<lparr>exmemcnt := exmemcnt s OR 0xF\<rparr>)
      in (fst r, flash_leave s0 (snd r)))"
  by (simp add: flash_erase_check_def flash_leave_def Let_def split_def)

text \<open>
  Claim C8. On a cartridge in read mode with contents \<open>mem\<close>, \<open>flash_erase_check\<close>
  reports dirty if and only if one of the \<open>262144\<close> halfwords of the 512 KiB range
  differs from \<open>0xFFFF\<close>. It reads the halfwords in ascending order from halfword
  0, one 16-bit read each; the scan ends with the first halfword that differs, and
  covers the whole range when the flash is reported clean.
\<close>

theorem flash_erase_check_scan:
  "(fst (flash_erase_check (\<lambda>t. mem) s0) \<longleftrightarrow> (\<exists>j<256 * 1024. mem j \<noteq> 0xFFFF)) \<and>
   (\<exists>n. 0 < n \<and> n \<le> 256 * 1024 \<and>
        (\<forall>j<n - 1. mem j = 0xFFFF) \<and>
        (n < 256 * 1024 \<longrightarrow> mem (n - 1) \<noteq> 0xFFFF) \<and>
        (\<not> fst (flash_erase_check (\<lambda>t. mem) s0) \<longrightarrow> n = 256 * 1024) \<and>
        reads_of (bus (snd (flash_erase_check (\<lambda>t. mem) s0))) =
          rev (map (\<lambda>j. (j, mem j)) [0..<n]) @ reads_of (bus s0))"
proof -
  let ?s = "set_supercard_mode MAPPED_FIRMWARE True False (sysSetCartOwner BUS_OWNER_ARM9 s0)"
  let ?s1 = "?s\<lparr>exmemcnt := exmemcnt ?s OR 0xF\<rparr>"
  from erase_check_loop_scan [of 0 mem False ?s1] obtain n where
    n: "n \<le> 256 * 1024"
       "\<forall>j. j + 1 < n \<longrightarrow> mem j = 0xFFFF"
       "n < 256 * 1024 \<longrightarrow> 0 < n \<and> mem (n - 1) \<noteq> 0xFFFF"
       "erase_check_loop (\<lambda>t. mem) 0 False ?s1 =
          (if 0 < n then mem (n - 1) \<noteq> 0xFFFF else False,
           ?s1\<lparr>bus := rev (map (\<lambda>j. Rd j (mem j)) [0..<n]) @ bus ?s1\<rparr>)"
    by auto
  from n(1,3) have pos: "0 < n"
    by (cases "n < 256 * 1024") simp_all
  have f: "fst (flash_erase_check (\<lambda>t. mem) s0) = (mem (n - 1) \<noteq> 0xFFFF)"
    using pos n(4) by (simp add: flash_erase_check_unfold Let_def)
  have r: "reads_of (bus (snd (flash_erase_check (\<lambda>t. mem) s0))) =
      rev (map (\<lambda>j. (j, mem j)) [0..<n]) @ reads_of (bus s0)"
    using n(4) by (simp add: flash_erase_check_unfold Let_def bus_flash_leave reads_of_append
        reads_of_rev_Rds bus_set_supercard_mode)
  have pre: "\<forall>j<n - 1. mem j = 0xFFFF"
    using n(2) by auto
  have iff: "(mem (n - 1) \<noteq> 0xFFFF) \<longleftrightarrow> (\<exists>j<256 * 1024. mem j \<noteq> 0xFFFF)"
  proof
    assume "mem (n - 1) \<noteq> 0xFFFF"
    moreover from pos n(1) have "n - 1 < 256 * 1024" by simp
    ultimately show "\<exists>j<256 * 1024. mem j \<noteq> 0xFFFF" by blast
  next
    assume "\<exists>j<256 * 1024. mem j \<noteq> 0xFFFF"
    then obtain j where j: "j < 256 * 1024" "mem j \<noteq> 0xFFFF" by blast
    show "mem (n - 1) \<noteq> 0xFFFF"
    proof (cases "n < 256 * 1024")
      case True with n(3) show ?thesis by simp
    next
      case False
      with n(1) have e: "n = 256 * 1024" by simp
      from pre j(2) have "\<not> j < n - 1" by blast
      with j(1) e have "j = n - 1" by simp
      with j show ?thesis by simp
    qed
  qed
  have full: "\<not> fst (flash_erase_check (\<lambda>t. mem) s0) \<longrightarrow> n = 256 * 1024"
    using f n(1,3) by (cases "n < 256 * 1024") simp_all
  from f iff have A: "fst (flash_erase_check (\<lambda>t. mem) s0) \<longleftrightarrow> (\<exists>j<256 * 1024. mem j \<noteq> 0xFFFF)"
    by (rule trans)
  from n(3) have B: "n < 256 * 1024 \<longrightarrow> mem (n - 1) \<noteq> 0xFFFF"
    by (rule impI [OF conjunct2 [OF mp]])
  from A pos n(1) pre B full r show ?thesis
    by blast
qed


theorem flash_erase_check_scan_witness:
  "fst (flash_erase_check (\<lambda>t j. if j = 3 then 0 else 0xFFFF) \<lparr>exmemcnt = 0, bus = []\<rparr>) \<and>
   reads_of (bus (snd (flash_erase_check (\<lambda>t j. if j = 3 then 0 else 0xFFFF)
       \<lparr>exmemcnt = 0, bus = []\<rparr>))) = [(3, 0), (2, 0xFFFF), (1, 0xFFFF), (0, 0xFFFF)] \<and>
   \<not> fst (flash_erase_check (\<lambda>t j. 0xFFFF) \<lparr>exmemcnt = 0, bus = []\<rparr>) \<and>
   reads_of (bus (snd (flash_erase_check (\<lambda>t j. 0xFFFF) \<lparr>exmemcnt = 0, bus = []\<rparr>))) =
     rev (map (\<lambda>j. (j, 0xFFFF)) [0..<256 * 1024])"
proof -
  let ?s0 = "\<lparr>exmemcnt = 0, bus = []\<rparr>"
  let ?dirty = "\<lambda>j::nat. if j = 3 then 0 else (0xFFFF :: u16)"
  let ?clean = "\<lambda>j::nat. (0xFFFF :: u16)"
  note d = flash_erase_check_scan [of ?dirty ?s0]
  note c = flash_erase_check_scan [of ?clean ?s0]
  have "\<exists>j<256 * 1024. ?dirty j \<noteq> 0xFFFF"
    by (intro exI [of _ 3]) simp
  with d have 1: "fst (flash_erase_check (\<lambda>t. ?dirty) ?s0)"
    by blast
  from d obtain n where n: "0 < n" "\<forall>j<n - 1. ?dirty j = 0xFFFF"
      "n < 256 * 1024 \<longrightarrow> ?dirty (n - 1) \<noteq> 0xFFFF"
      "reads_of (bus (snd (flash_erase_check (\<lambda>t. ?dirty) ?s0))) =
         rev (map (\<lambda>j. (j, ?dirty j)) [0..<n]) @ reads_of (bus ?s0)"
    by blast
  from n(2) have "\<not> 3 < n - 1"
    by (auto split: if_splits)
  with n(3) n(1) have "n = 4"
    by (auto split: if_splits)
  with n(4) have 2: "reads_of (bus (snd (flash_erase_check (\<lambda>t. ?dirty) ?s0))) =
      [(3, 0), (2, 0xFFFF), (1, 0xFFFF), (0, 0xFFFF)]"
    by (simp add: upt_rec)
  from c have 3: "\<not> fst (flash_erase_check (\<lambda>t. ?clean) ?s0)"
    by simp
  from c obtain m where m: "\<not> fst (flash_erase_check (\<lambda>t. ?clean) ?s0) \<longrightarrow> m = 256 * 1024"
      "reads_of (bus (snd (flash_erase_check (\<lambda>t. ?clean) ?s0))) =
         rev (map (\<lambda>j. (j, ?clean j)) [0..<m]) @ reads_of (bus ?s0)"
    by blast
  from m(1) 3 have "m = 256 * 1024" by blast
  with m(2) have 4: "reads_of (bus (snd (flash_erase_check (\<lambda>t. ?clean) ?s0))) =
      rev (map (\<lambda>j. (j, 0xFFFF)) [0..<256 * 1024])"
    by simp
  from 1 2 3 4 show ?thesis by blast
qed

subsection \<open>The loop of flash_write\<close>

lemma write_wait_step:
  "write_wait dev j s =
     (if j < 32 * 1024 then
        (if status_stable dev (bus s) then s\<lparr>bus := poll_once dev (bus s)\<rparr>
         else write_wait dev (j + 1) (s\<lparr>bus := poll_once dev (bus s)\<rparr>))
      else s)"
  by (subst write_wait.simps) (simp add: bus_read_def Let_def status_stable_def poll_once_def)

lemma write_wait_trace:
  "\<exists>m. m \<le> 32 * 1024 - j \<and> write_wait dev j s = s\<lparr>bus := (poll_once dev ^^ m) (bus s)\<rparr>"
proof (induction "32 * 1024 - j" arbitrary: j s)
  case 0
  then have "write_wait dev j s = s\<lparr>bus := (poll_once dev ^^ 0) (bus s)\<rparr>"
    by (subst write_wait_step) simp
  then show ?case by blast
next
  case (Suc n)
  then have lt: "j < 32 * 1024" by simp
  let ?s2 = "s\<lparr>bus := poll_once dev (bus s)\<rparr>"
  show ?case
  proof (cases "status_stable dev (bus s)")
    case True
    with lt have "write_wait dev j s = s\<lparr>bus := (poll_once dev ^^ 1) (bus s)\<rparr>"
      by (subst write_wait_step) simp
    moreover from lt have "(1::nat) \<le> 32 * 1024 - j" by simp
    ultimately show ?thesis by blast
  next
    case False
    from Suc have "n = 32 * 1024 - (j + 1)" by simp
    from Suc.hyps(1) [OF this, of ?s2] obtain m where
      m: "m \<le> 32 * 1024 - (j + 1)" "write_wait dev (j + 1) ?s2 = ?s2\<lparr>bus := (poll_once dev ^^ m) (bus ?s2)\<rparr>"
      by blast
    from lt False m(2) have "write_wait dev j s = s\<lparr>bus := (poll_once dev ^^ Suc m) (bus s)\<rparr>"
      by (subst write_wait_step) (simp add: funpow_swap1)
    moreover from m(1) lt have "Suc m \<le> 32 * 1024 - j" by simp
    ultimately show ?thesis by blast
  qed
qed

text \<open>
  What one round of the loop does to a word whose two bytes lie inside the buffer:
  three command writes, the data word written to halfword \<open>i div 2\<close>, at most
  \<open>32768\<close> polling rounds, the check that the status location has stopped toggling,
  a reset, and, only if that check passed, the readback of halfword \<open>i div 2\<close>.
\<close>

lemma flash_write_word_outcome:
  assumes "i + 1 < length buf"
  shows "\<exists>m\<le>32 * 1024.
     (let value = (ucast (buf ! i) OR push_bit 8 (ucast (buf ! (i + 1))) :: u16);
          tw = (poll_once dev ^^ m)
                 (Wr (i div 2) value # Wr (unat (addr_perm 0x555)) 0x00A0 #
                  Wr (unat (addr_perm 0x2AA)) 0x0055 # Wr (unat (addr_perm 0x555)) 0x00AA # bus s);
          t = Wr 0 0x00F0 # poll_once dev tw
      in flash_write_word dev buf i s =
           (if \<not> status_stable dev tw then Inr (False, s\<lparr>bus := t\<rparr>)
            else Inr (dev t (i div 2) = value, s\<lparr>bus := Rd (i div 2) (dev t (i div 2)) # t\<rparr>)))"
proof -
  let ?v = "(ucast (buf ! i) OR push_bit 8 (ucast (buf ! (i + 1))) :: u16)"
  let ?s1 = "bus_write (i div 2) ?v (bus_write (unat (addr_perm 0x555)) 0x00A0
     (bus_write (unat (addr_perm 0x2AA)) 0x0055 (bus_write (unat (addr_perm 0x555)) 0x00AA s)))"
  from write_wait_trace [of 0 dev ?s1] obtain m where
    m: "m \<le> 32 * 1024" and w: "write_wait dev 0 ?s1 = ?s1\<lparr>bus := (poll_once dev ^^ m) (bus ?s1)\<rparr>"
    by auto
  from assms have r: "buf_read buf i = Inr (buf ! i)" "buf_read buf (i + 1) = Inr (buf ! (i + 1))"
    by (simp_all add: buf_read_def)
  show ?thesis
    using m w r
    by (intro exI [of _ m])
       (simp add: flash_write_word_def Let_def bus_read_def bus_write_def status_stable_def
         poll_once_def)
qed

lemma flash_write_loop_step:
  "flash_write_loop dev buf size' i s =
     (if i < size' then
        (case flash_write_word dev buf i s of
           Inl e \<Rightarrow> Inl e
         | Inr (continue, s) \<Rightarrow>
             if continue then flash_write_loop dev buf size' (i + 2) s else Inr (False, s))
      else Inr (True, s))"
  by (rule flash_write_loop.simps)

lemma flash_write_loop_skip:
  "words_ok dev buf k s1 = Some s \<Longrightarrow> 2 * k \<le> size' + 1 \<Longrightarrow>
   flash_write_loop dev buf size' 0 s1 = flash_write_loop dev buf size' (2 * k) s"
proof (induction k arbitrary: s)
  case 0
  then show ?case by simp
next
  case (Suc k)
  from Suc.prems(1) obtain s' where
    s': "words_ok dev buf k s1 = Some s'" "flash_write_word dev buf (2 * k) s' = Inr (True, s)"
    by (auto split: option.splits sum.splits prod.splits bool.splits)
  from Suc.prems(2) have lt: "2 * k < size'" by simp
  from Suc.IH [OF s'(1)] Suc.prems(2)
  have "flash_write_loop dev buf size' 0 s1 = flash_write_loop dev buf size' (2 * k) s'"
    by simp
  also have "\<dots> = flash_write_loop dev buf size' (2 * Suc k) s"
    using lt s'(2) by (subst flash_write_loop_step) simp
  finally show ?case .
qed

lemma flash_write_unfold:
  "flash_write dev buf size' s0 =
     (case flash_write_loop dev buf size' 0 (write_entry s0) of
        Inl e \<Rightarrow> Inl e
      | Inr (ok, s) \<Rightarrow> Inr (ok, flash_leave s0 s))"
  by (simp add: flash_write_def write_entry_def flash_leave_def Let_def
      split: sum.splits prod.splits)

text \<open>
  The loop around the words: if the first \<open>k\<close> words went through and word \<open>k\<close> does
  not, the run ends there with failure; if all words went through, with success.
\<close>

lemma flash_write_loop_outcome:
  assumes "words_ok dev buf k (write_entry s0) = Some s"
  shows "(2 * k < size' \<and> flash_write_word dev buf (2 * k) s = Inr (False, s') \<longrightarrow>
            flash_write dev buf size' s0 = Inr (False, flash_leave s0 s') \<and>
            bus (flash_leave s0 s') =
              Wr REG_SD_MODE 0 # Wr REG_SD_MODE 0 # Wr REG_SD_MODE MODESWITCH_MAGIC #
              Wr REG_SD_MODE MODESWITCH_MAGIC # bus s') \<and>
         (size' \<le> 2 * k \<and> 2 * k \<le> size' + 1 \<longrightarrow>
            flash_write dev buf size' s0 = Inr (True, flash_leave s0 s))"
proof (intro conjI impI)
  assume a: "2 * k < size' \<and> flash_write_word dev buf (2 * k) s = Inr (False, s')"
  then have "flash_write_loop dev buf size' 0 (write_entry s0) = flash_write_loop dev buf size' (2 * k) s"
    using flash_write_loop_skip [OF assms, of size'] by simp
  also have "\<dots> = Inr (False, s')"
    using a by (subst flash_write_loop_step) simp
  finally show "flash_write dev buf size' s0 = Inr (False, flash_leave s0 s')"
    by (simp add: flash_write_unfold)
  show "bus (flash_leave s0 s') =
      Wr REG_SD_MODE 0 # Wr REG_SD_MODE 0 # Wr REG_SD_MODE MODESWITCH_MAGIC #
      Wr REG_SD_MODE MODESWITCH_MAGIC # bus s'"
    by (rule bus_flash_leave)
next
  assume a: "size' \<le> 2 * k \<and> 2 * k \<le> size' + 1"
  then have "flash_write_loop dev buf size' 0 (write_entry s0) = flash_write_loop dev buf size' (2 * k) s"
    using flash_write_loop_skip [OF assms, of size'] by simp
  also have "\<dots> = Inr (True, s)"
    using a by (subst flash_write_loop_step) simp
  finally show "flash_write dev buf size' s0 = Inr (True, flash_leave s0 s)"
    by (simp add: flash_write_unfold)
qed


lemma words_ok_steady_1:
  assumes "1 < length buf" "buf ! 0 = 0xFF" "buf ! 1 = 0xFF"
  shows "words_ok steady_cart buf 1 s =
     Some (s\<lparr>bus := Rd 0 0xFFFF # Wr 0 0x00F0 # Rd 0 0xFFFF # Rd 0 0xFFFF # Rd 0 0xFFFF #
                     Rd 0 0xFFFF # Wr 0 0xFFFF # Wr (unat (addr_perm 0x555)) 0x00A0 #
                     Wr (unat (addr_perm 0x2AA)) 0x0055 # Wr (unat (addr_perm 0x555)) 0x00AA #
                     bus s\<rparr>)"
proof -
  have st: "status_stable steady_cart t" for t
    by (simp add: status_stable_def steady_cart_def)
  have v: "steady_cart t idx = 0xFFFF" for t idx
    by (simp add: steady_cart_def)
  have w: "write_wait steady_cart 0 s' = s'\<lparr>bus := poll_once steady_cart (bus s')\<rparr>" for s'
    by (subst write_wait_step) (simp add: st)
  have "flash_write_word steady_cart buf 0 s =
     Inr (True, s\<lparr>bus := Rd 0 0xFFFF # Wr 0 0x00F0 # Rd 0 0xFFFF # Rd 0 0xFFFF # Rd 0 0xFFFF #
                     Rd 0 0xFFFF # Wr 0 0xFFFF # Wr (unat (addr_perm 0x555)) 0x00A0 #
                     Wr (unat (addr_perm 0x2AA)) 0x0055 # Wr (unat (addr_perm 0x555)) 0x00AA #
                     bus s\<rparr>)"
    using assms
    by (auto simp add: flash_write_word_def buf_read_def Let_def w bus_write_def bus_read_def
        poll_once_def v)
  then show ?thesis
    by simp
qed

lemma flash_write_word_steady_mismatch:
  assumes "i + 1 < length buf" "buf ! i = 0" "buf ! (i + 1) = 0"
  shows "\<exists>s'. flash_write_word steady_cart buf i s = Inr (False, s')"
proof -
  have st: "status_stable steady_cart t" for t
    by (simp add: status_stable_def steady_cart_def)
  have v: "steady_cart t idx = 0xFFFF" for t idx
    by (simp add: steady_cart_def)
  have w: "write_wait steady_cart 0 s' = s'\<lparr>bus := poll_once steady_cart (bus s')\<rparr>" for s'
    by (subst write_wait_step) (simp add: st)
  show ?thesis
    using assms
    by (simp add: flash_write_word_def buf_read_def Let_def w bus_write_def bus_read_def
        poll_once_def v)
qed









subsection \<open>A cartridge on which a word's polling budget runs out and the write succeeds\<close>





lemma reads_of_write_entry [simp]: "reads_of (bus (write_entry s0)) = reads_of (bus s0)"
  by (simp add: write_entry_def Let_def bus_write_def bus_set_supercard_mode)

lemma reads_of_program_sequence [simp]: "reads_of (program_sequence j v t) = reads_of t"
  by (simp add: program_sequence_def)



subsection \<open>The bytes flash_write reads from the image\<close>

lemma flash_write_word_in_range:
  assumes "i + 1 < length buf"
  shows "\<exists>c s'. flash_write_word dev buf i s = Inr (c, s')"
  using flash_write_word_outcome [OF assms, of dev s]
  by (auto simp add: Let_def split: if_splits)

lemma flash_write_word_overread:
  assumes "i < length buf" "length buf \<le> i + 1"
  shows "flash_write_word dev buf i s = Inl (BufferOverread (i + 1))"
  using assms by (simp add: flash_write_word_def buf_read_def)

lemma flash_write_loop_in_range:
  "even i \<Longrightarrow> even size' \<Longrightarrow> size' \<le> length buf \<Longrightarrow>
   \<exists>r. flash_write_loop dev buf size' i s = Inr r"
proof (induction "size' - i" arbitrary: i s rule: less_induct)
  case less
  show ?case
  proof (cases "i < size'")
    case False
    then have "flash_write_loop dev buf size' i s = Inr (True, s)"
      by (subst flash_write_loop_step) simp
    then show ?thesis by blast
  next
    case True
    with less.prems have "i + 1 < size'"
      by (metis Suc_eq_plus1 Suc_lessI even_Suc)
    with less.prems(3) have "i + 1 < length buf" by simp
    from flash_write_word_in_range [OF this, of dev s] obtain c s' where
      w: "flash_write_word dev buf i s = Inr (c, s')" by blast
    show ?thesis
    proof (cases c)
      case False
      with True w have "flash_write_loop dev buf size' i s = Inr (False, s')"
        by (subst flash_write_loop_step) simp
      then show ?thesis by blast
    next
      case c: True
      from True have "size' - (i + 2) < size' - i" by simp
      from less.hyps [OF this _ less.prems(2,3), of s'] less.prems(1)
      obtain r where "flash_write_loop dev buf size' (i + 2) s' = Inr r" by auto
      with True w c have "flash_write_loop dev buf size' i s = Inr r"
        by (subst flash_write_loop_step) simp
      then show ?thesis by blast
    qed
  qed
qed

lemma flash_write_loop_odd:
  "even i \<Longrightarrow> odd size' \<Longrightarrow> length buf = size' \<Longrightarrow> i \<le> size' \<Longrightarrow>
   flash_write_loop dev buf size' i s \<noteq> Inr (True, r)"
proof (induction "size' - i" arbitrary: i s rule: less_induct)
  case less
  from less.prems have lt: "i < size'"
    by (metis le_neq_implies_less)
  show ?case
  proof (cases "i + 1 < size'")
    case False
    with lt less.prems(3) have "flash_write_word dev buf i s = Inl (BufferOverread (i + 1))"
      by (intro flash_write_word_overread) simp_all
    with lt show ?thesis by (subst flash_write_loop_step) simp
  next
    case True
    with less.prems(3) have "i + 1 < length buf" by simp
    from flash_write_word_in_range [OF this, of dev s] obtain c s' where
      w: "flash_write_word dev buf i s = Inr (c, s')" by blast
    show ?thesis
    proof (cases c)
      case False
      with lt w show ?thesis by (subst flash_write_loop_step) simp
    next
      case c: True
      from lt have d: "size' - (i + 2) < size' - i" by simp
      from True have "i + 2 \<le> size'" by simp
      from less.hyps [OF d _ less.prems(2,3) this, of s'] less.prems(1)
      have "flash_write_loop dev buf size' (i + 2) s' \<noteq> Inr (True, r)" by simp
      with lt w c show ?thesis by (subst flash_write_loop_step) simp
    qed
  qed
qed

text \<open>
  Claim C10. Each round of the loop of \<open>flash_write\<close> reads the image at offsets
  \<open>i\<close> and \<open>i + 1\<close>, for even \<open>i\<close> below the size. With an image of exactly
  \<open>size'\<close> bytes: if the size is even, no run reads outside the image, whatever
  the cartridge answers. If it is odd, the round of the last word reads the byte at
  offset \<open>size'\<close>, one past the end; a run never ends in success, and it ends in
  that read whenever the words before the last were programmed and read back equal.
\<close>

theorem flash_write_buffer_reads:
  assumes "length buf = size'"
  shows "(even size' \<longrightarrow> (\<exists>r. flash_write dev buf size' s0 = Inr r)) \<and>
         (odd size' \<longrightarrow>
            (\<forall>s. flash_write_word dev buf (size' - 1) s = Inl (BufferOverread size')) \<and>
            (\<forall>r. flash_write dev buf size' s0 \<noteq> Inr (True, r)) \<and>
            (\<forall>s1. words_ok dev buf (size' div 2) (write_entry s0) = Some s1 \<longrightarrow>
                  flash_write dev buf size' s0 = Inl (BufferOverread size')))"
proof (intro conjI impI allI)
  assume "even size'"
  with assms obtain r where "flash_write_loop dev buf size' 0 (write_entry s0) = Inr r"
    using flash_write_loop_in_range [of 0 size' buf dev "write_entry s0"] by auto
  then show "\<exists>r. flash_write dev buf size' s0 = Inr r"
    by (cases r) (simp add: flash_write_unfold)
next
  fix s assume o: "odd size'"
  then have "0 < size'" by (cases size') simp_all
  with assms show "flash_write_word dev buf (size' - 1) s = Inl (BufferOverread size')"
    using flash_write_word_overread [of "size' - 1" buf dev s] by simp
next
  fix r assume o: "odd size'"
  show "flash_write dev buf size' s0 \<noteq> Inr (True, r)"
  proof
    assume "flash_write dev buf size' s0 = Inr (True, r)"
    then obtain s where "flash_write_loop dev buf size' 0 (write_entry s0) = Inr (True, s)"
      by (auto simp add: flash_write_unfold split: sum.splits prod.splits)
    with flash_write_loop_odd [of 0 size' buf dev "write_entry s0" s] o assms
    show False by simp
  qed
next
  fix s1 assume o: "odd size'" and w: "words_ok dev buf (size' div 2) (write_entry s0) = Some s1"
  from o have e: "2 * (size' div 2) = size' - 1" and pos: "0 < size'"
    by (auto elim: oddE)
  have "flash_write_loop dev buf size' 0 (write_entry s0) = flash_write_loop dev buf size' (size' - 1) s1"
    using flash_write_loop_skip [OF w, of size'] e by simp
  also have "\<dots> = Inl (BufferOverread size')"
    using pos assms flash_write_word_overread [of "size' - 1" buf dev s1]
    by (subst flash_write_loop_step) simp
  finally show "flash_write dev buf size' s0 = Inl (BufferOverread size')"
    by (simp add: flash_write_unfold)
qed

theorem flash_write_buffer_reads_witness:
  "length [0xFF, 0xFF :: u8] = 2 \<and>
   (\<exists>r. flash_write steady_cart [0xFF, 0xFF] 2 \<lparr>exmemcnt = 0x80, bus = []\<rparr> = Inr r) \<and>
   length [0xFF, 0xFF, 0xFF :: u8] = 3 \<and>
   flash_write_word steady_cart [0xFF, 0xFF, 0xFF] 2 \<lparr>exmemcnt = 0x80, bus = []\<rparr> =
     Inl (BufferOverread 3) \<and>
   flash_write steady_cart [0xFF, 0xFF, 0xFF] 3 \<lparr>exmemcnt = 0x80, bus = []\<rparr> =
     Inl (BufferOverread 3)"
proof -
  let ?s0 = "\<lparr>exmemcnt = 0x80, bus = []\<rparr>"
  let ?B = "[0xFF, 0xFF] :: u8 list"
  let ?C = "[0xFF, 0xFF, 0xFF] :: u8 list"
  have lb: "length ?B = 2" and lc: "length ?C = 3"
    by simp_all
  from flash_write_buffer_reads [OF lb, of steady_cart ?s0]
  have 1: "\<exists>r. flash_write steady_cart ?B 2 ?s0 = Inr r"
    by simp
  obtain s1 where s1: "words_ok steady_cart ?C (3 div 2) (write_entry ?s0) = Some s1"
    using words_ok_steady_1 [of ?C "write_entry ?s0"] by simp
  from flash_write_buffer_reads [OF lc, of steady_cart ?s0] s1
  have 2: "flash_write_word steady_cart ?C 2 ?s0 = Inl (BufferOverread 3)"
    and 3: "flash_write steady_cart ?C 3 ?s0 = Inl (BufferOverread 3)"
    by (simp_all del: words_ok.simps)
  from lb lc 1 2 3 show ?thesis by blast
qed

section \<open>Properties of the hash\<close>

subsection \<open>Byte order does not show\<close>

lemma mask_bytes32:
  "(0xFF :: u32) = mask 8" "(0xFF00 :: u32) = push_bit 8 (mask 8)"
  by (simp_all add: mask_eq_exp_minus_1)

lemma bit_bswap32:
  "bit (bswap32 x) n \<longleftrightarrow>
     24 \<le> n \<and> n < 32 \<and> bit x (n - 24) \<or> 16 \<le> n \<and> n < 24 \<and> bit x (n - 8) \<or>
     8 \<le> n \<and> n < 16 \<and> bit x (n + 8) \<or> n < 8 \<and> bit x (n + 24)"
proof -
  have lt: "bit x m \<Longrightarrow> m < 32" for m
    using bit_imp_le_length [of x m] by simp
  have 1: "bit (push_bit 24 (x AND 0xFF)) n \<longleftrightarrow> 24 \<le> n \<and> n < 32 \<and> bit x (n - 24)"
    unfolding mask_bytes32 using lt [of "n - 24"]
    by (simp only: bit_push_bit_iff bit_and_iff bit_mask_iff possible_bit_word) auto
  have 2: "bit (push_bit 8 (x AND 0xFF00)) n \<longleftrightarrow> 16 \<le> n \<and> n < 24 \<and> bit x (n - 8)"
    unfolding mask_bytes32 using lt [of "n - 8"]
    by (simp only: bit_push_bit_iff bit_and_iff bit_mask_iff possible_bit_word) auto
  have 3: "bit (drop_bit 8 x AND 0xFF00) n \<longleftrightarrow> 8 \<le> n \<and> n < 16 \<and> bit x (n + 8)"
    unfolding mask_bytes32 using lt [of "n + 8"]
    by (simp only: bit_push_bit_iff bit_and_iff bit_mask_iff bit_drop_bit_eq o_apply
        possible_bit_word) (auto simp add: ac_simps)
  have 4: "bit (drop_bit 24 x AND 0xFF) n \<longleftrightarrow> n < 8 \<and> bit x (n + 24)"
    unfolding mask_bytes32 using lt [of "n + 24"]
    by (simp only: bit_and_iff bit_mask_iff bit_drop_bit_eq o_apply possible_bit_word)
       (auto simp add: ac_simps)
  show ?thesis
    unfolding bswap32_def
    by (simp only: bit_or_iff 1 2 3 4)
qed

lemma bswap32_bytes:
  "(ucast (bswap32 x) :: u8) = ucast (drop_bit 24 x)"
  "(ucast (drop_bit 8 (bswap32 x)) :: u8) = ucast (drop_bit 16 x)"
  "(ucast (drop_bit 16 (bswap32 x)) :: u8) = ucast (drop_bit 8 x)"
  "(ucast (drop_bit 24 (bswap32 x)) :: u8) = ucast x"
proof -
  have b: "bit (ucast y :: u8) n \<longleftrightarrow> n < 8 \<and> bit y n" for y :: u32 and n
    by (simp add: bit_ucast_iff)
  show "(ucast (bswap32 x) :: u8) = ucast (drop_bit 24 x)"
    by (rule bit_eqI) (simp only: b bit_drop_bit_eq o_apply bit_bswap32, auto simp add: ac_simps)
  show "(ucast (drop_bit 8 (bswap32 x)) :: u8) = ucast (drop_bit 16 x)"
    by (rule bit_eqI) (simp only: b bit_drop_bit_eq o_apply bit_bswap32, auto simp add: ac_simps)
  show "(ucast (drop_bit 16 (bswap32 x)) :: u8) = ucast (drop_bit 8 x)"
    by (rule bit_eqI) (simp only: b bit_drop_bit_eq o_apply bit_bswap32, auto simp add: ac_simps)
  show "(ucast (drop_bit 24 (bswap32 x)) :: u8) = ucast x"
    by (rule bit_eqI) (simp only: b bit_drop_bit_eq o_apply bit_bswap32, auto simp add: ac_simps)
qed

lemma store_read32be: "store_u32 le (read32be le x) = be_bytes32 x"
  by (simp add: store_u32_def read32be_def be_bytes32_def bswap32_bytes)

lemma bit_ucast8: "bit (ucast (c :: u8) :: u32) n \<longleftrightarrow> n < 8 \<and> bit c n"
  using bit_imp_le_length [of c n] by (auto simp add: bit_ucast_iff)

lemma bit_bytes32:
  fixes c0 c1 c2 c3 :: u8
  shows "bit (ucast c0 OR push_bit 8 (ucast c1) OR push_bit 16 (ucast c2) OR push_bit 24 (ucast c3) :: u32) n
    \<longleftrightarrow> n < 8 \<and> bit c0 n \<or> 8 \<le> n \<and> n < 16 \<and> bit c1 (n - 8) \<or>
        16 \<le> n \<and> n < 24 \<and> bit c2 (n - 16) \<or> 24 \<le> n \<and> n < 32 \<and> bit c3 (n - 24)"
proof -
  have 1: "bit (push_bit 8 (ucast c1 :: u32)) n \<longleftrightarrow> 8 \<le> n \<and> n < 16 \<and> bit c1 (n - 8)"
    by (simp only: bit_push_bit_iff bit_ucast8 possible_bit_word) auto
  have 2: "bit (push_bit 16 (ucast c2 :: u32)) n \<longleftrightarrow> 16 \<le> n \<and> n < 24 \<and> bit c2 (n - 16)"
    by (simp only: bit_push_bit_iff bit_ucast8 possible_bit_word) auto
  have 3: "bit (push_bit 24 (ucast c3 :: u32)) n \<longleftrightarrow> 24 \<le> n \<and> n < 32 \<and> bit c3 (n - 24)"
    by (simp only: bit_push_bit_iff bit_ucast8 possible_bit_word) auto
  show ?thesis
    by (simp only: bit_or_iff 1 2 3 bit_ucast8)
qed

lemma bswap32_le_word:
  fixes c0 c1 c2 c3 :: u8
  shows "bswap32 (ucast c0 OR push_bit 8 (ucast c1) OR push_bit 16 (ucast c2) OR push_bit 24 (ucast c3)) =
     push_bit 24 (ucast c0) OR push_bit 16 (ucast c1) OR push_bit 8 (ucast c2) OR ucast c3"
proof (rule bit_eqI)
  fix n :: nat
  have r: "push_bit 24 (ucast c0) OR push_bit 16 (ucast c1) OR push_bit 8 (ucast c2) OR ucast c3 =
      (ucast c3 OR push_bit 8 (ucast c2) OR push_bit 16 (ucast c1) OR push_bit 24 (ucast c0) :: u32)"
    by (simp add: ac_simps)
  consider "n < 8" | "8 \<le> n" "n < 16" | "16 \<le> n" "n < 24" | "24 \<le> n" "n < 32" | "32 \<le> n"
    by linarith
  then show "bit (bswap32 (ucast c0 OR push_bit 8 (ucast c1) OR push_bit 16 (ucast c2) OR
          push_bit 24 (ucast c3))) n =
        bit (push_bit 24 (ucast c0) OR push_bit 16 (ucast c1) OR push_bit 8 (ucast c2) OR
          (ucast c3 :: u32)) n"
    unfolding r by cases (auto simp add: bit_bswap32 bit_bytes32)
qed

lemma read_load32be: "read32be le (load_u32 le data i) = be_word data i"
  by (simp add: read32be_def load_u32_def be_word_def Let_def bswap32_le_word)

lemma mask_bytes64:
  "(0xFF :: u64) = mask 8" "(0xFF00 :: u64) = push_bit 8 (mask 8)"
  "(0xFF0000 :: u64) = push_bit 16 (mask 8)" "(0xFF000000 :: u64) = push_bit 24 (mask 8)"
  by (simp_all add: mask_eq_exp_minus_1)

lemma bit_bswap64:
  "bit (bswap64 x) n \<longleftrightarrow>
     56 \<le> n \<and> n < 64 \<and> bit x (n - 56) \<or> 48 \<le> n \<and> n < 56 \<and> bit x (n - 40) \<or>
     40 \<le> n \<and> n < 48 \<and> bit x (n - 24) \<or> 32 \<le> n \<and> n < 40 \<and> bit x (n - 8) \<or>
     24 \<le> n \<and> n < 32 \<and> bit x (n + 8) \<or> 16 \<le> n \<and> n < 24 \<and> bit x (n + 24) \<or>
     8 \<le> n \<and> n < 16 \<and> bit x (n + 40) \<or> n < 8 \<and> bit x (n + 56)"
proof -
  have lt: "bit x m \<Longrightarrow> m < 64" for m
    using bit_imp_le_length [of x m] by simp
  have 1: "bit (push_bit 56 (x AND 0xFF)) n \<longleftrightarrow> 56 \<le> n \<and> n < 64 \<and> bit x (n - 56)"
    unfolding mask_bytes64 using lt [of "n - 56"]
    by (simp only: bit_push_bit_iff bit_and_iff bit_mask_iff possible_bit_word) auto
  have 2: "bit (push_bit 40 (x AND 0xFF00)) n \<longleftrightarrow> 48 \<le> n \<and> n < 56 \<and> bit x (n - 40)"
    unfolding mask_bytes64 using lt [of "n - 40"]
    by (simp only: bit_push_bit_iff bit_and_iff bit_mask_iff possible_bit_word) auto
  have 3: "bit (push_bit 24 (x AND 0xFF0000)) n \<longleftrightarrow> 40 \<le> n \<and> n < 48 \<and> bit x (n - 24)"
    unfolding mask_bytes64 using lt [of "n - 24"]
    by (simp only: bit_push_bit_iff bit_and_iff bit_mask_iff possible_bit_word) auto
  have 4: "bit (push_bit 8 (x AND 0xFF000000)) n \<longleftrightarrow> 32 \<le> n \<and> n < 40 \<and> bit x (n - 8)"
    unfolding mask_bytes64 using lt [of "n - 8"]
    by (simp only: bit_push_bit_iff bit_and_iff bit_mask_iff possible_bit_word) auto
  have 5: "bit (drop_bit 8 x AND 0xFF000000) n \<longleftrightarrow> 24 \<le> n \<and> n < 32 \<and> bit x (n + 8)"
    unfolding mask_bytes64 using lt [of "n + 8"]
    by (simp only: bit_push_bit_iff bit_and_iff bit_mask_iff bit_drop_bit_eq o_apply
        possible_bit_word) (auto simp add: ac_simps)
  have 6: "bit (drop_bit 24 x AND 0xFF0000) n \<longleftrightarrow> 16 \<le> n \<and> n < 24 \<and> bit x (n + 24)"
    unfolding mask_bytes64 using lt [of "n + 24"]
    by (simp only: bit_push_bit_iff bit_and_iff bit_mask_iff bit_drop_bit_eq o_apply
        possible_bit_word) (auto simp add: ac_simps)
  have 7: "bit (drop_bit 40 x AND 0xFF00) n \<longleftrightarrow> 8 \<le> n \<and> n < 16 \<and> bit x (n + 40)"
    unfolding mask_bytes64 using lt [of "n + 40"]
    by (simp only: bit_push_bit_iff bit_and_iff bit_mask_iff bit_drop_bit_eq o_apply
        possible_bit_word) (auto simp add: ac_simps)
  have 8: "bit (drop_bit 56 x AND 0xFF) n \<longleftrightarrow> n < 8 \<and> bit x (n + 56)"
    unfolding mask_bytes64 using lt [of "n + 56"]
    by (simp only: bit_and_iff bit_mask_iff bit_drop_bit_eq o_apply possible_bit_word)
       (auto simp add: ac_simps)
  show ?thesis
    unfolding bswap64_def
    by (simp only: bit_or_iff 1 2 3 4 5 6 7 8)
qed

lemma bswap64_bytes:
  "(ucast (bswap64 x) :: u8) = ucast (drop_bit 56 x)"
  "(ucast (drop_bit 8 (bswap64 x)) :: u8) = ucast (drop_bit 48 x)"
  "(ucast (drop_bit 16 (bswap64 x)) :: u8) = ucast (drop_bit 40 x)"
  "(ucast (drop_bit 24 (bswap64 x)) :: u8) = ucast (drop_bit 32 x)"
  "(ucast (drop_bit 32 (bswap64 x)) :: u8) = ucast (drop_bit 24 x)"
  "(ucast (drop_bit 40 (bswap64 x)) :: u8) = ucast (drop_bit 16 x)"
  "(ucast (drop_bit 48 (bswap64 x)) :: u8) = ucast (drop_bit 8 x)"
  "(ucast (drop_bit 56 (bswap64 x)) :: u8) = ucast x"
proof -
  have b: "bit (ucast y :: u8) n \<longleftrightarrow> n < 8 \<and> bit y n" for y :: u64 and n
    by (simp add: bit_ucast_iff)
  show "(ucast (bswap64 x) :: u8) = ucast (drop_bit 56 x)"
    by (rule bit_eqI) (simp only: b bit_drop_bit_eq o_apply bit_bswap64, auto simp add: ac_simps)
  show "(ucast (drop_bit 8 (bswap64 x)) :: u8) = ucast (drop_bit 48 x)"
    by (rule bit_eqI) (simp only: b bit_drop_bit_eq o_apply bit_bswap64, auto simp add: ac_simps)
  show "(ucast (drop_bit 16 (bswap64 x)) :: u8) = ucast (drop_bit 40 x)"
    by (rule bit_eqI) (simp only: b bit_drop_bit_eq o_apply bit_bswap64, auto simp add: ac_simps)
  show "(ucast (drop_bit 24 (bswap64 x)) :: u8) = ucast (drop_bit 32 x)"
    by (rule bit_eqI) (simp only: b bit_drop_bit_eq o_apply bit_bswap64, auto simp add: ac_simps)
  show "(ucast (drop_bit 32 (bswap64 x)) :: u8) = ucast (drop_bit 24 x)"
    by (rule bit_eqI) (simp only: b bit_drop_bit_eq o_apply bit_bswap64, auto simp add: ac_simps)
  show "(ucast (drop_bit 40 (bswap64 x)) :: u8) = ucast (drop_bit 16 x)"
    by (rule bit_eqI) (simp only: b bit_drop_bit_eq o_apply bit_bswap64, auto simp add: ac_simps)
  show "(ucast (drop_bit 48 (bswap64 x)) :: u8) = ucast (drop_bit 8 x)"
    by (rule bit_eqI) (simp only: b bit_drop_bit_eq o_apply bit_bswap64, auto simp add: ac_simps)
  show "(ucast (drop_bit 56 (bswap64 x)) :: u8) = ucast x"
    by (rule bit_eqI) (simp only: b bit_drop_bit_eq o_apply bit_bswap64, auto simp add: ac_simps)
qed

lemma store_read64be: "store_u64 le (read64be le x) = be_bytes64 x"
  by (simp add: store_u64_def read64be_def be_bytes64_def bswap64_bytes)

subsection \<open>The schedule buffer as a sliding window\<close>

lemma and_15_mod: "(i :: nat) AND 15 = i mod 16"
proof -
  have "(15 :: nat) = mask 4"
    by (simp add: mask_eq_exp_minus_1)
  then show ?thesis
    by (simp only: flip: take_bit_eq_mask) (simp add: take_bit_eq_mod)
qed

lemma mod16_next:
  assumes "j < 16"
  shows "((Suc i + j) mod 16 = i mod 16) = (j = 15)"
    and "(i mod 16 = (Suc i + j) mod 16) = (j = 15)"
proof -
  define a where "a = i mod 16"
  have a: "a < 16"
    by (simp add: a_def)
  have "(Suc i + j) mod 16 = (a + Suc j) mod 16"
    unfolding a_def using mod_add_left_eq [of i 16 "Suc j"] by simp
  also have "\<dots> = (if a + Suc j < 16 then a + Suc j else a + Suc j - 16)"
    using a assms by (simp add: le_mod_geq)
  finally have e: "(Suc i + j) mod 16 = (if a + Suc j < 16 then a + Suc j else a + Suc j - 16)" .
  show "((Suc i + j) mod 16 = i mod 16) = (j = 15)"
    unfolding e a_def [symmetric] using a assms by auto
  then show "(i mod 16 = (Suc i + j) mod 16) = (j = 15)"
    by (simp only: eq_commute [of "i mod 16"])
qed

lemma length_snd_sha256_round [simp]: "length (snd (sha256_round i p)) = length (snd p)"
  by (simp add: sha256_round_def Let_def)

lemma sha_step_round:
  assumes "length w = 16"
  shows "sha_step (sha256k ! i) (ls, rotate i w) =
     (fst (sha256_round i (ls, w)), rotate (Suc i) (snd (sha256_round i (ls, w))))"
proof -
  have n: "rotate i w ! j = w ! ((i + j) mod 16)" if "j < 16" for j
    using that assms by (simp add: nth_rotate)
  have n0: "rotate i w ! 0 = w ! (i mod 16)"
    using n [of 0] by simp
  define wn where "wn = w ! (i mod 16) + (w ! ((i + 9) mod 16) +
      (rotr (w ! ((i + 1) mod 16)) 7 XOR rotr (w ! ((i + 1) mod 16)) 18 XOR
         drop_bit 3 (w ! ((i + 1) mod 16))) +
      (rotr (w ! ((i + 14) mod 16)) 17 XOR rotr (w ! ((i + 14) mod 16)) 19 XOR
         drop_bit 10 (w ! ((i + 14) mod 16))))"
  have s: "snd (sha256_round i (ls, w)) = w[i mod 16 := wn]"
    by (simp add: sha256_round_def Let_def and_15_mod wn_def)
  have t: "snd (sha_step (sha256k ! i) (ls, rotate i w)) = tl (rotate i w) @ [wn]"
    by (simp add: sha_step_def Let_def n n0 wn_def)
  have f: "fst (sha_step (sha256k ! i) (ls, rotate i w)) = fst (sha256_round i (ls, w))"
    by (simp add: sha_step_def sha256_round_def Let_def n0 and_15_mod)
  have r: "tl (rotate i w) @ [wn] = rotate (Suc i) (w[i mod 16 := wn])"
  proof (rule nth_equalityI)
    show "length (tl (rotate i w) @ [wn]) = length (rotate (Suc i) (w[i mod 16 := wn]))"
      using assms by simp
  next
    fix j assume "j < length (tl (rotate i w) @ [wn])"
    with assms have j: "j < 16" by simp
    have "(tl (rotate i w) @ [wn]) ! j = (if j = 15 then wn else w ! ((Suc i + j) mod 16))"
      using j assms n [of "Suc j"] by (auto simp add: nth_append nth_tl)
    moreover have "rotate (Suc i) (w[i mod 16 := wn]) ! j =
        (if j = 15 then wn else w ! ((Suc i + j) mod 16))"
      using j assms mod16_next [OF j, of i]
      by (simp add: nth_rotate nth_list_update del: rotate_Suc)
    ultimately show "(tl (rotate i w) @ [wn]) ! j = rotate (Suc i) (w[i mod 16 := wn]) ! j"
      by simp
  qed
  show ?thesis
    using f t s r by (simp add: prod_eq_iff del: rotate_Suc)
qed

lemma length_snd_rounds [simp]:
  "length (snd (fold sha256_round [0..<n] (ls, w))) = length w"
  by (induction n) simp_all

lemma rounds_window:
  assumes "length w = 16" "n \<le> 64"
  shows "fold sha_step (take n sha256k) (ls, w) =
     (fst (fold sha256_round [0..<n] (ls, w)), rotate n (snd (fold sha256_round [0..<n] (ls, w))))"
  using assms(2)
proof (induction n)
  case 0
  then show ?case by simp
next
  case (Suc n)
  let ?p = "fold sha256_round [0..<n] (ls, w)"
  have l: "length sha256k = 64"
    by (simp add: sha256k_def)
  from Suc.prems l have t: "take (Suc n) sha256k = take n sha256k @ [sha256k ! n]"
    by (simp add: take_Suc_conv_app_nth)
  from Suc have ih: "fold sha_step (take n sha256k) (ls, w) = (fst ?p, rotate n (snd ?p))"
    by simp
  have lw: "length (snd ?p) = 16"
    using assms(1) by simp
  have "fold sha_step (take (Suc n) sha256k) (ls, w) =
      sha_step (sha256k ! n) (fst ?p, rotate n (snd ?p))"
    by (simp only: t fold_append o_apply ih fold_simps id_apply)
  also have "\<dots> = (fst (sha256_round n (fst ?p, snd ?p)),
      rotate (Suc n) (snd (sha256_round n (fst ?p, snd ?p))))"
    by (rule sha_step_round [OF lw])
  finally show ?case
    by (simp del: rotate_Suc)
qed

lemma sha256_transform_window:
  "sha256_transform le state data =
     map (\<lambda>i. state ! i + fst (fold sha_step sha256k (state, map (be_word data) [0..<16])) ! i)
       [0..<8]"
proof -
  have l: "take 64 sha256k = sha256k"
    by (simp add: sha256k_def)
  have "fst (fold sha256_round [0..<64] (state, map (be_word data) [0..<16])) =
      fst (fold sha_step sha256k (state, map (be_word data) [0..<16]))"
    using rounds_window [of "map (be_word data) [0..<16]" 64 state] by (simp add: l)
  then show ?thesis
    by (simp add: sha256_transform_def Let_def read_load32be)
qed

subsection \<open>The blocks that sha256_internal hashes\<close>

lemma unat_sub_64: "64 \<le> (l :: u32) \<Longrightarrow> unat (l - 64) = unat l - 64"
  by (simp add: unat_sub)

lemma unat_ge_64: "64 \<le> (l :: u32) \<longleftrightarrow> 64 \<le> unat l"
  by (simp add: word_le_nat_alt)

lemma sha256_loop_blocks_eq:
  "length buf = unat len \<Longrightarrow>
   sha256_loop_blocks buf len =
     (chunks64 (unat len div 64) buf, drop (64 * (unat len div 64)) buf,
      of_nat (unat len mod 64))"
proof (induction "unat len" arbitrary: buf len rule: less_induct)
  case less
  show ?case
  proof (cases "64 \<le> len")
    case False
    then have "unat len < 64"
      by (simp add: unat_ge_64)
    with False show ?thesis
      by (subst sha256_loop_blocks.simps) simp
  next
    case True
    then have n: "64 \<le> unat len" and u: "unat (len - 64) = unat len - 64"
      by (simp_all add: unat_ge_64 unat_sub_64)
    from n u have lt: "unat (len - 64) < unat len"
      by simp
    from less.prems u have lb: "length (drop 64 buf) = unat (len - 64)"
      by simp
    from n have d: "unat len div 64 = Suc ((unat len - 64) div 64)"
      and m: "(unat len - 64) mod 64 = unat len mod 64"
      by (simp_all add: le_div_geq le_mod_geq)
    have dd: "64 * Suc ((unat len - 64) div 64) = 64 * ((unat len - 64) div 64) + 64"
      by simp
    show ?thesis
      using True less.hyps [OF lt lb]
      by (subst sha256_loop_blocks.simps) (simp add: u d m dd del: mult_Suc_right)
  qed
qed

lemma load_u32_take:
  "i < 16 \<Longrightarrow> load_u32 le (take 64 buf) i = load_u32 le buf i"
  by (simp add: load_u32_def)

lemma sha256_transform_take:
  "sha256_transform le st (take 64 buf) = sha256_transform le st buf"
proof -
  have "map (\<lambda>i. read32be le (load_u32 le (take 64 buf) i)) [0..<16] =
      map (\<lambda>i. read32be le (load_u32 le buf i)) [0..<16]"
    by (rule map_cong) (simp_all add: load_u32_take)
  then show ?thesis
    by (simp only: sha256_transform_def)
qed

lemma sha256_loop_eq:
  "sha256_loop le st buf len =
     (foldl (sha256_transform le) st (fst (sha256_loop_blocks buf len)),
      snd (sha256_loop_blocks buf len))"
proof (induction "unat len" arbitrary: st buf len rule: less_induct)
  case less
  show ?case
  proof (cases "64 \<le> len")
    case False
    then show ?thesis
      by (subst sha256_loop.simps, subst (1 2) sha256_loop_blocks.simps) simp
  next
    case True
    then have "unat (len - 64) < unat len"
      by (simp add: unat_ge_64 unat_sub_64)
    from less.hyps [OF this, of "sha256_transform le st buf" "drop 64 buf"] True
    show ?thesis
      by (subst sha256_loop.simps, subst (1 2) sha256_loop_blocks.simps)
         (simp add: split_def Let_def sha256_transform_take)
  qed
qed

lemma sha256_internal_blocks:
  "sha256_internal le buf len =
     foldl (sha256_transform le) sha256_kinit (sha256_blocks le buf len)"
  by (simp add: sha256_internal_def sha256_blocks_def sha256_loop_eq Let_def split_def)

lemma length_chunks64 [simp]: "length (chunks64 n bs) = n"
  by (induction n arbitrary: bs) simp_all

lemma chunks64_append:
  "length xs = 64 * a \<Longrightarrow> chunks64 (a + b) (xs @ ys) = chunks64 a xs @ chunks64 b ys"
proof (induction a arbitrary: xs)
  case 0
  then show ?case by simp
next
  case (Suc a)
  then have l: "length (drop 64 xs) = 64 * a" and g: "64 \<le> length xs"
    by simp_all
  from Suc.IH [OF l] g show ?case
    by simp
qed

lemma chunks64_take: "chunks64 a (take (64 * a) xs) = chunks64 a xs"
proof (induction a arbitrary: xs)
  case 0
  then show ?case by simp
next
  case (Suc a)
  have "take 64 (take (64 * Suc a) xs) = take 64 xs"
    by (simp add: min_def)
  moreover have "drop 64 (take (64 * Suc a) xs) = take (64 * a) (drop 64 xs)"
    by (simp add: drop_take)
  ultimately show ?case
    using Suc.IH [of "drop 64 xs"] by simp
qed

lemma chunks64_one: "length a = 64 \<Longrightarrow> chunks64 1 a = [a]"
  by simp

lemma chunks64_two:
  "length a = 64 \<Longrightarrow> length b = 64 \<Longrightarrow> chunks64 2 (a @ b) = [a, b]"
  by (simp add: numeral_2_eq_2)

lemma length_be_bytes64 [simp]: "length (be_bytes64 x) = 8"
  by (simp add: be_bytes64_def)

text \<open>
  The blocks that \<open>sha256_internal\<close> hashes: the complete 64-byte blocks of the
  message, and then one or two more. \<open>bitlen\<close> is the length shifted left by 3 as a
  32-bit number.
\<close>

lemma sha256_blocks_tail:
  assumes "length msg = unat len"
  shows "sha256_blocks le msg len =
     chunks64 (unat len div 64) msg @
     (let rest = drop (64 * (unat len div 64)) msg; r = unat len mod 64;
          L = be_bytes64 (ucast (push_bit 3 len :: u32))
      in if 56 \<le> r then [rest @ 0x80 # replicate (63 - r) 0, replicate 56 0 @ L]
         else [rest @ 0x80 # replicate (55 - r) 0 @ L])"
proof -
  define q where "q = unat len div 64"
  define r where "r = unat len mod 64"
  define L where "L = be_bytes64 (ucast (push_bit 3 len :: u32))"
  define rest where "rest = drop (64 * q) msg"
  have r: "r < 64"
    by (simp add: r_def)
  have n: "unat len = 64 * q + r"
    by (simp add: q_def r_def)
  have lr: "length rest = r"
    using assms n by (simp add: rest_def)
  have ur: "unat (of_nat r :: u32) = r"
    using r by (simp add: unat_of_nat)
  have c: "(56 \<le> (of_nat r :: u32)) = (56 \<le> r)"
    using ur by (simp add: word_le_nat_alt)
  define tmp where "tmp = rest @ 0x80 # replicate (63 - r) 0"
  have t: "(take r rest @ replicate (64 - r) 0)[r := 0x80] = tmp"
  proof -
    from r have "replicate (64 - r) (0 :: u8) = 0 # replicate (63 - r) 0"
      by (simp add: Suc_diff_le flip: replicate_Suc)
    then show ?thesis
      using lr by (simp add: tmp_def list_update_append)
  qed
  have b: "sha256_blocks le msg len =
      chunks64 q msg @ (if 56 \<le> r then [tmp, replicate 56 0 @ L] else [take 56 tmp @ L])"
    using assms
    by (simp add: sha256_blocks_def sha256_loop_blocks_eq Let_def store_read64be ur c t
        flip: q_def r_def L_def rest_def)
  have k: "take 56 tmp = rest @ 0x80 # replicate (55 - r) 0" if "\<not> 56 \<le> r"
  proof -
    from that have s: "56 - r = Suc (55 - r)" and mn: "min (55 - r) (63 - r) = 55 - r"
      by arith+
    show ?thesis
      using lr that by (simp add: tmp_def s mn)
  qed
  show ?thesis
  proof (cases "56 \<le> r")
    case True
    then show ?thesis
      unfolding b Let_def by (simp add: tmp_def flip: q_def r_def L_def rest_def)
  next
    case False
    then show ?thesis
      unfolding b Let_def k [OF False] by (simp flip: q_def r_def L_def rest_def)
  qed
qed

lemma concat_chunks64: "length xs = 64 * n \<Longrightarrow> concat (chunks64 n xs) = xs"
proof (induction n arbitrary: xs)
  case 0
  then show ?case by simp
next
  case (Suc n)
  then have "length (drop 64 xs) = 64 * n"
    by simp
  from Suc.IH [OF this] show ?case
    by simp
qed

text \<open>
  Put together, they are the 64-byte pieces of the message followed by \<open>0x80\<close>, zero bytes up to 56 modulo 64, and the eight bytes of \<open>bitlen\<close> in
  big-endian order. There are two blocks after the last complete one when 56 or
  more bytes of the message remain, and one otherwise. \<open>bitlen\<close> is the length
  shifted left by 3 as a 32-bit number.
\<close>

lemma sha256_blocks_pad:
  assumes "length msg = unat len"
  shows "sha256_blocks le msg len =
     chunks64 (unat len div 64 + (if 56 \<le> unat len mod 64 then 2 else 1))
       (msg @ [0x80] @ replicate ((119 - unat len mod 64) mod 64) 0 @
        be_bytes64 (ucast (push_bit 3 len :: u32)))"
proof -
  define q where "q = unat len div 64"
  define r where "r = unat len mod 64"
  define L where "L = be_bytes64 (ucast (push_bit 3 len :: u32))"
  define rest where "rest = drop (64 * q) msg"
  have r: "r < 64"
    by (simp add: r_def)
  have n: "unat len = 64 * q + r"
    by (simp add: q_def r_def)
  have lr: "length rest = r"
    using assms n by (simp add: rest_def)
  have ur: "unat (of_nat r :: u32) = r"
    using r by (simp add: unat_of_nat)
  have c: "(56 \<le> (of_nat r :: u32)) = (56 \<le> r)"
    using ur by (simp add: word_le_nat_alt)
  have lL: "length L = 8"
    by (simp add: L_def)
  have m: "msg = take (64 * q) msg @ rest"
    by (simp add: rest_def)
  have lt: "length (take (64 * q) msg) = 64 * q"
    using assms n by simp
  define tmp where "tmp = rest @ 0x80 # replicate (63 - r) 0"
  have t: "(take r rest @ replicate (64 - r) 0)[r := 0x80] = tmp"
  proof -
    from r have "replicate (64 - r) (0 :: u8) = 0 # replicate (63 - r) 0"
      by (simp add: Suc_diff_le flip: replicate_Suc)
    then show ?thesis
      using lr by (simp add: tmp_def list_update_append)
  qed
  have ltmp: "length tmp = 64"
    using lr r by (simp add: tmp_def)
  have b: "sha256_blocks le msg len =
      chunks64 q msg @ (if 56 \<le> r then [tmp, replicate 56 0 @ L] else [take 56 tmp @ L])"
    using assms
    by (simp add: sha256_blocks_def sha256_loop_blocks_eq Let_def store_read64be ur c t
        flip: q_def r_def L_def rest_def)
  have p: "chunks64 (q + k) (msg @ ys) = chunks64 q msg @ chunks64 k (rest @ ys)" for k ys
  proof -
    have "chunks64 (q + k) (msg @ ys) = chunks64 (q + k) (take (64 * q) msg @ (rest @ ys))"
      by (subst (1) m) simp
    also have "\<dots> = chunks64 q (take (64 * q) msg) @ chunks64 k (rest @ ys)"
      by (rule chunks64_append [OF lt])
    finally show ?thesis
      by (simp only: chunks64_take)
  qed
  show ?thesis
  proof (cases "56 \<le> r")
    case True
    with r have z: "(119 - r) mod 64 = (63 - r) + 56"
      by simp
    have "rest @ [0x80] @ replicate ((119 - r) mod 64) 0 @ L = tmp @ (replicate 56 0 @ L)"
      by (simp add: z tmp_def replicate_add)
    moreover have "chunks64 2 (tmp @ (replicate 56 0 @ L)) = [tmp, replicate 56 0 @ L]"
      using ltmp lL by (intro chunks64_two) simp_all
    ultimately have "chunks64 2 (rest @ [0x80] @ replicate ((119 - r) mod 64) 0 @ L) =
        [tmp, replicate 56 0 @ L]"
      by (simp only:)
    with True show ?thesis
      unfolding b by (simp only: p if_True flip: q_def r_def L_def)
  next
    case False
    then have "119 - r = 64 + (55 - r)"
      by arith
    then have z: "(119 - r) mod 64 = 55 - r"
      by (simp only: mod_add_self1) simp
    from False have s: "56 - r = Suc (55 - r)" and mn: "min (55 - r) (63 - r) = 55 - r"
      by arith+
    have "take 56 tmp = rest @ 0x80 # replicate (55 - r) 0"
      using lr False by (simp add: tmp_def s mn)
    then have "rest @ [0x80] @ replicate ((119 - r) mod 64) 0 @ L = take 56 tmp @ L"
      by (simp add: z)
    moreover have "chunks64 1 (take 56 tmp @ L) = [take 56 tmp @ L]"
      using ltmp lL by (intro chunks64_one) simp
    ultimately have "chunks64 1 (rest @ [0x80] @ replicate ((119 - r) mod 64) 0 @ L) =
        [take 56 tmp @ L]"
      by (simp only:)
    with False show ?thesis
      unfolding b by (simp only: p if_False flip: q_def r_def L_def)
  qed
qed

lemma ucast_drop_bit_of_nat:
  assumes "n < 2 ^ 64"
  shows "(ucast (drop_bit k (of_nat n :: u64)) :: u8) = of_nat (n div 2 ^ k)"
proof -
  have "unat (of_nat n :: u64) = n"
    using assms by (simp add: unat_of_nat)
  then have "drop_bit k (unat (of_nat n :: u64)) = n div 2 ^ k"
    by (simp only: drop_bit_eq_div)
  then have "unat (drop_bit k (of_nat n :: u64)) = n div 2 ^ k"
    by (simp only: unat_drop_bit_eq)
  then show ?thesis
    by (metis of_nat_unat)
qed

lemma be_bytes64_of_nat:
  assumes "n < 2 ^ 64"
  shows "be_bytes64 (of_nat n) = be64 n"
proof -
  have e: "[0..<8] = [0, 1, 2, 3, 4, 5, 6, 7]"
    by (simp add: upt_rec)
  have z: "(ucast (of_nat n :: u64) :: u8) = of_nat (n div 2 ^ 0)"
    using ucast_drop_bit_of_nat [OF assms, of 0] by simp
  show ?thesis
    unfolding be_bytes64_def be64_def e
    by (simp add: ucast_drop_bit_of_nat [OF assms] z)
qed

lemma bitlen_small:
  assumes "unat len < 2 ^ 29"
  shows "(ucast (push_bit 3 len :: u32) :: u64) = of_nat (8 * unat len)"
proof -
  have "unat (8 :: u32) * unat len < 2 ^ LENGTH(32)"
    using assms by simp
  then have "unat (8 * len) = unat (8 :: u32) * unat len"
    by (simp only: unat_mult_lem)
  then have "unat (push_bit 3 len) = 8 * unat len"
    by (simp add: push_bit_eq_mult mult.commute)
  then show ?thesis
    by (metis of_nat_unat)
qed

lemma length_sha256_pad:
  "length (sha256_pad msg) =
     64 * (length msg div 64 + (if 56 \<le> length msg mod 64 then 2 else 1))"
proof -
  define q where "q = length msg div 64"
  define r where "r = length msg mod 64"
  have r: "r < 64" and n: "length msg = 64 * q + r"
    by (simp_all add: q_def r_def)
  have l: "length (sha256_pad msg) = 64 * q + r + 1 + (119 - r) mod 64 + 8"
    using r by (simp add: sha256_pad_def be64_def n)
  show ?thesis
  proof (cases "56 \<le> r")
    case True
    with r have "(119 - r) mod 64 = 119 - r"
      by simp
    with True r l show ?thesis
      by (simp flip: q_def r_def)
  next
    case False
    then have "119 - r = 64 + (55 - r)"
      by arith
    then have "(119 - r) mod 64 = 55 - r"
      by (simp only: mod_add_self1) simp
    with False l show ?thesis
      by (simp flip: q_def r_def)
  qed
qed

lemma sha256_blocks_spec:
  assumes "length msg = unat len" and "unat len < 2 ^ 29"
  shows "sha256_blocks le msg len = chunks64 (length (sha256_pad msg) div 64) (sha256_pad msg)"
proof -
  have "8 * unat len < 2 ^ 64"
    using assms(2) by simp
  then have b: "be_bytes64 (ucast (push_bit 3 len :: u32)) = be64 (8 * unat len)"
    by (simp only: bitlen_small [OF assms(2)] be_bytes64_of_nat)
  have n: "length (sha256_pad msg) div 64 =
      unat len div 64 + (if 56 \<le> unat len mod 64 then 2 else 1)"
    unfolding length_sha256_pad assms(1) by (rule nonzero_mult_div_cancel_left) simp
  have p: "sha256_pad msg =
      msg @ [0x80] @ replicate ((119 - unat len mod 64) mod 64) 0 @ be64 (8 * unat len)"
    unfolding sha256_pad_def assms(1) by (rule refl)
  show ?thesis
    unfolding n unfolding p sha256_blocks_pad [OF assms(1)] b by (rule refl)
qed

lemma sha256_internal_spec:
  assumes "length msg = unat len" and "unat len < 2 ^ 29"
  shows "sha256_internal le msg len =
      foldl (sha256_transform le) sha256_kinit
        (chunks64 (length (sha256_pad msg) div 64) (sha256_pad msg))"
  by (simp only: sha256_internal_blocks sha256_blocks_spec [OF assms])


subsection \<open>The length field beyond 32 bits\<close>

lemma last_chunks64:
  assumes "length xs = 64 * a" and "length ys = 64"
  shows "last (chunks64 (a + 1) (xs @ ys)) = ys"
proof -
  have "chunks64 (a + 1) (xs @ ys) = chunks64 a xs @ [ys]"
    by (simp only: chunks64_append [OF assms(1)] chunks64_one [OF assms(2)])
  then show ?thesis
    by (simp only: last_snoc)
qed

lemma sha256_blocks_last_wrap:
  assumes "length msg = 2 ^ 29"
  shows "last (sha256_blocks le msg (2 ^ 29)) = 0x80 # replicate 63 0"
proof -
  have u: "unat (2 ^ 29 :: u32) = 2 ^ 29"
    by simp
  have l: "length msg = unat (2 ^ 29 :: u32)"
    using assms by (simp only: u)
  have d: "(2 ^ 29 :: nat) div 64 = 2 ^ 23" and m: "(2 ^ 29 :: nat) mod 64 = 0"
    by simp_all
  have lm: "length msg = 64 * 2 ^ 23"
    using assms by simp
  have b: "(ucast (push_bit 3 (2 ^ 29 :: u32) :: u32) :: u64) = 0"
    by simp
  have r8: "replicate 8 (0 :: u8) = [0, 0, 0, 0, 0, 0, 0, 0]"
    by (simp add: numeral_eq_Suc)
  have b0: "be_bytes64 0 = replicate 8 0"
    unfolding r8 by (simp add: be_bytes64_def)
  have z: "(119 - 0) mod 64 = (55 :: nat)"
    by simp
  have "replicate 55 (0 :: u8) @ replicate 8 0 = replicate 63 0"
    by (simp flip: replicate_add)
  then have t: "[0x80] @ replicate ((119 - 0) mod 64) 0 @ be_bytes64 0 =
      0x80 # replicate 63 (0 :: u8)"
    unfolding z b0 by simp
  have k: "(if 56 \<le> (0 :: nat) then 2 else 1) = (1 :: nat)"
    by simp
  have "sha256_blocks le msg (2 ^ 29) =
      chunks64 (2 ^ 23 + 1) (msg @ [0x80] @ replicate ((119 - 0) mod 64) 0 @ be_bytes64 0)"
    by (simp only: sha256_blocks_pad [OF l] u d m b k)
  then have "last (sha256_blocks le msg (2 ^ 29)) =
      last (chunks64 (2 ^ 23 + 1) (msg @ ([0x80] @ replicate ((119 - 0) mod 64) 0 @ be_bytes64 0)))"
    by (simp only:)
  also have "\<dots> = [0x80] @ replicate ((119 - 0) mod 64) 0 @ be_bytes64 0"
    by (rule last_chunks64 [OF lm]) (simp only: t length_Cons length_replicate)
  finally show ?thesis
    by (simp only: t)
qed

lemma sha256_pad_last_wrap:
  assumes "length msg = 2 ^ 29"
  shows "last (chunks64 (length (sha256_pad msg) div 64) (sha256_pad msg)) =
     0x80 # replicate 55 0 @ [0, 0, 0, 1, 0, 0, 0, 0]"
proof -
  have d: "(2 ^ 29 :: nat) div 64 = 2 ^ 23" and m: "(2 ^ 29 :: nat) mod 64 = 0"
    by simp_all
  have lm: "length msg = 64 * 2 ^ 23"
    using assms by simp
  have e: "[0..<8] = [0, 1, 2, 3, 4, 5, 6, 7]"
    by (simp add: upt_rec)
  have b: "be64 (8 * 2 ^ 29) = [0, 0, 0, 1, 0, 0, 0, 0]"
    unfolding be64_def e by simp
  have z: "(119 - 0) mod 64 = (55 :: nat)"
    by simp
  have k: "(if 56 \<le> (0 :: nat) then 2 else 1) = (1 :: nat)"
    by simp
  have n: "length (sha256_pad msg) div 64 = 2 ^ 23 + 1"
    unfolding length_sha256_pad assms d m k by (rule nonzero_mult_div_cancel_left) simp
  have p: "sha256_pad msg = msg @ (0x80 # replicate 55 0 @ [0, 0, 0, 1, 0, 0, 0, 0])"
    unfolding sha256_pad_def assms m z b by simp
  show ?thesis
    unfolding n unfolding p by (rule last_chunks64 [OF lm]) simp
qed

lemma wrap_tails_differ:
  "(0x80 :: u8) # replicate 63 0 \<noteq> 0x80 # replicate 55 0 @ [0, 0, 0, 1, 0, 0, 0, 0]"
proof -
  have "replicate 63 (0 :: u8) = replicate 55 0 @ replicate 8 0"
    by (simp flip: replicate_add)
  moreover have "replicate 8 (0 :: u8) = [0, 0, 0, 0, 0, 0, 0, 0]"
    by (simp add: numeral_eq_Suc)
  ultimately show ?thesis
    by (simp only: list.inject same_append_eq) simp
qed

lemma sha256_blocks_wrap_differ:
  assumes "length msg = 2 ^ 29"
  shows "sha256_blocks le msg (2 ^ 29) \<noteq>
     chunks64 (length (sha256_pad msg) div 64) (sha256_pad msg)"
proof
  assume "sha256_blocks le msg (2 ^ 29) =
     chunks64 (length (sha256_pad msg) div 64) (sha256_pad msg)"
  then have "last (sha256_blocks le msg (2 ^ 29)) =
     last (chunks64 (length (sha256_pad msg) div 64) (sha256_pad msg))"
    by (simp only:)
  then show False
    unfolding sha256_blocks_last_wrap [OF assms] sha256_pad_last_wrap [OF assms]
    using wrap_tails_differ by blast
qed

text \<open>
  Claim C3, as the code has it. For a message of fewer than \<open>2 ^ 29\<close> bytes, the
  blocks that \<open>sha256_internal\<close> hashes, one after the other from the initial state,
  are the 64-byte pieces of the padded message of the specification: the message,
  \<open>0x80\<close>, zero bytes, and the bit length of the message as a 64-bit big-endian
  number. After the complete blocks of the message come two blocks when 56 or more
  bytes of the message remain, the second one made of 56 zero bytes and the length,
  and one block otherwise.
\<close>

theorem sha256_padding:
  assumes "length msg = unat len" and "unat len < 2 ^ 29"
  shows "sha256_internal le msg len =
           foldl (sha256_transform le) sha256_kinit (sha256_blocks le msg len) \<and>
         sha256_blocks le msg len =
           chunks64 (length (sha256_pad msg) div 64) (sha256_pad msg) \<and>
         concat (sha256_blocks le msg len) = sha256_pad msg \<and>
         length (sha256_blocks le msg len) =
           length msg div 64 + (if 56 \<le> length msg mod 64 then 2 else 1) \<and>
         take (length msg div 64) (sha256_blocks le msg len) =
           chunks64 (length msg div 64) msg \<and>
         drop (length msg div 64) (sha256_blocks le msg len) =
           (let rest = drop (64 * (length msg div 64)) msg; r = length msg mod 64
            in if 56 \<le> r
               then [rest @ 0x80 # replicate (63 - r) 0, replicate 56 0 @ be64 (8 * length msg)]
               else [rest @ 0x80 # replicate (55 - r) 0 @ be64 (8 * length msg)])"
proof -
  have 1: "sha256_internal le msg len =
      foldl (sha256_transform le) sha256_kinit (sha256_blocks le msg len)"
    by (rule sha256_internal_blocks)
  have 2: "sha256_blocks le msg len =
      chunks64 (length (sha256_pad msg) div 64) (sha256_pad msg)"
    by (rule sha256_blocks_spec [OF assms])
  have "length (sha256_pad msg) = 64 * (length (sha256_pad msg) div 64)"
    unfolding length_sha256_pad by simp
  then have 3: "concat (sha256_blocks le msg len) = sha256_pad msg"
    unfolding 2 by (rule concat_chunks64)
  have 4: "length (sha256_blocks le msg len) =
      length msg div 64 + (if 56 \<le> length msg mod 64 then 2 else 1)"
    unfolding 2 length_chunks64 length_sha256_pad by simp
  have "8 * unat len < 2 ^ 64"
    using assms(2) by simp
  then have b: "be_bytes64 (ucast (push_bit 3 len :: u32)) = be64 (8 * length msg)"
    by (simp only: bitlen_small [OF assms(2)] be_bytes64_of_nat assms(1))
  note t = sha256_blocks_tail [OF assms(1), of le, unfolded b, folded assms(1)]
  have 5: "take (length msg div 64) (sha256_blocks le msg len) =
      chunks64 (length msg div 64) msg"
    by (subst t) simp
  have 6: "drop (length msg div 64) (sha256_blocks le msg len) =
      (let rest = drop (64 * (length msg div 64)) msg; r = length msg mod 64
       in if 56 \<le> r
          then [rest @ 0x80 # replicate (63 - r) 0, replicate 56 0 @ be64 (8 * length msg)]
          else [rest @ 0x80 # replicate (55 - r) 0 @ be64 (8 * length msg)])"
    by (subst t) (simp add: Let_def)
  show ?thesis
    by (intro conjI) (fact 1 2 3 4 5 6)+
qed

theorem sha256_padding_witness:
  "concat (sha256_blocks True [0x61, 0x62, 0x63] 3) = sha256_pad [0x61, 0x62, 0x63] \<and>
   length (sha256_blocks True [0x61, 0x62, 0x63] 3) = 1 \<and>
   sha256_internal True [0x61, 0x62, 0x63] 3 =
     foldl (sha256_transform True) sha256_kinit (sha256_blocks True [0x61, 0x62, 0x63] 3) \<and>
   sha256_blocks False (replicate 56 0x61) 56 =
     [replicate 56 0x61 @ 0x80 # replicate 7 0, replicate 56 0 @ be64 (8 * 56)]"
proof -
  have a: "length [0x61, 0x62, 0x63 :: u8] = unat (3 :: u32)" "unat (3 :: u32) < 2 ^ 29"
    by simp_all
  have b: "length (replicate 56 (0x61 :: u8)) = unat (56 :: u32)" "unat (56 :: u32) < 2 ^ 29"
    by simp_all
  have l: "length [0x61, 0x62, 0x63 :: u8] div 64 +
      (if 56 \<le> length [0x61, 0x62, 0x63 :: u8] mod 64 then 2 else 1) = 1"
    by simp
  have m: "(56 :: nat) div 64 = 0" "(56 :: nat) mod 64 = 56" "((56 :: nat) \<le> 56) = True"
    "63 - 56 = (7 :: nat)" "64 * 0 = (0 :: nat)"
    by simp_all
  note A = sha256_padding [OF a, of True]
  note B = sha256_padding [OF b, of False]
  from A have 1: "concat (sha256_blocks True [0x61, 0x62, 0x63] 3) = sha256_pad [0x61, 0x62, 0x63]"
    by blast
  from A have 2: "length (sha256_blocks True [0x61, 0x62, 0x63] 3) = 1"
    unfolding l by blast
  from A have 3: "sha256_internal True [0x61, 0x62, 0x63] 3 =
     foldl (sha256_transform True) sha256_kinit (sha256_blocks True [0x61, 0x62, 0x63] 3)"
    by blast
  from B have "drop (length (replicate 56 (0x61 :: u8)) div 64)
        (sha256_blocks False (replicate 56 0x61) 56) =
      (let rest = drop (64 * (length (replicate 56 (0x61 :: u8)) div 64)) (replicate 56 0x61);
           r = length (replicate 56 (0x61 :: u8)) mod 64
       in if 56 \<le> r
          then [rest @ 0x80 # replicate (63 - r) 0,
                replicate 56 0 @ be64 (8 * length (replicate 56 (0x61 :: u8)))]
          else [rest @ 0x80 # replicate (55 - r) 0 @
                be64 (8 * length (replicate 56 (0x61 :: u8)))])"
    by blast
  then have 4: "sha256_blocks False (replicate 56 0x61) 56 =
     [replicate 56 0x61 @ 0x80 # replicate 7 0, replicate 56 0 @ be64 (8 * 56)]"
    by (simp only: length_replicate m Let_def drop_0 if_True)
  show ?thesis
    by (intro conjI) (fact 1 2 3 4)+
qed

text \<open>
  Claim C3 as the specification words it holds for every input. The length field
  is computed by \<^verbatim>\<open>length << 3\<close> on the 32-bit length before it is widened to 64
  bits, so it is the bit length modulo \<open>2 ^ 32\<close>. On a message of \<open>2 ^ 29\<close> bytes the
  last block that is hashed ends in eight zero bytes, where the last block of the
  padded message ends in the bytes of \<open>2 ^ 32\<close>.
\<close>

theorem sha256_bitlen_wraps:
  "last (sha256_blocks True (replicate (2 ^ 29) 0) (2 ^ 29)) = 0x80 # replicate 63 0 \<and>
   last (chunks64 (length (sha256_pad (replicate (2 ^ 29) 0)) div 64)
          (sha256_pad (replicate (2 ^ 29) 0))) =
     0x80 # replicate 55 0 @ [0, 0, 0, 1, 0, 0, 0, 0] \<and>
   sha256_blocks True (replicate (2 ^ 29) 0) (2 ^ 29) \<noteq>
     chunks64 (length (sha256_pad (replicate (2 ^ 29) 0)) div 64)
       (sha256_pad (replicate (2 ^ 29) 0))"
  by (intro conjI sha256_blocks_last_wrap [OF length_replicate]
      sha256_pad_last_wrap [OF length_replicate] sha256_blocks_wrap_differ [OF length_replicate])

subsection \<open>Bit lists and words\<close>











subsection \<open>Word operations on explicit bit lists\<close>






















subsection \<open>The hash as a fold over the blocks\<close>

lemma sha256sum_blocks:
  "sha256sum le msg len =
     concat (map be_bytes32 (foldl (sha256_transform le) sha256_kinit (sha256_blocks le msg len)))"
  by (simp add: sha256sum_def Let_def sha256_internal_blocks o_def store_read32be)





subsection \<open>Test vectors\<close>
































subsection \<open>Byte order of the host\<close>

lemma sha256_transform_host: "sha256_transform le = sha256_transform True"
  by (intro ext) (simp only: sha256_transform_window)

lemma sha256_blocks_host: "sha256_blocks le msg len = sha256_blocks True msg len"
  by (simp add: sha256_blocks_def store_read64be)

lemma sha256sum_host: "sha256sum le msg len = sha256sum True msg len"
  unfolding sha256sum_blocks
  by (subst sha256_transform_host, subst sha256_blocks_host) (rule refl)



section \<open>Properties of the image table\<close>

text \<open>
  \<open>firmware_ident\<close> hashes the 512 KiB of the window and returns the name of the
  first entry of the table, in table order, whose 16 bytes are the first 16 bytes of
  the digest, and nothing when there is none.
\<close>

lemma ident_scan_find:
  "ident_scan hash es = map_option fst (find (\<lambda>e. take 16 hash = snd e) es)"
  by (induction es) simp_all

lemma firmware_ident_first_match:
  "firmware_ident le rom =
     map_option fst
       (find (\<lambda>e. take 16 (sha256sum le rom (512 * 1024)) = snd e) known_images)"
  by (simp add: firmware_ident_def Let_def ident_scan_find)

lemma firmware_ident_host: "firmware_ident le rom = firmware_ident True rom"
  unfolding firmware_ident_def by (subst sha256sum_host) (rule refl)


end
